theory Spec2Isabelle
  imports Complex_Main "HOL-Library.Multiset"
begin

section \<open>JavaScript numbers\<close>

text \<open>
  The engine computes with JavaScript numbers. A number is modelled as a rational (the
  finite doubles, with exact arithmetic), the two infinities, or NaN. Infinities are
  needed because an unbounded maximum is \<open>Number.POSITIVE_INFINITY\<close>; NaN is what
  \<open>undefined\<close> becomes in arithmetic and what \<open>Infinity - Infinity\<close> yields.
  Negative zero is not distinguished from zero. The arithmetic of the model is not
  rounded: it is that of the program on whole numbers of magnitude up to \<open>2^53\<close>, and
  the statements that depend on exact sums are made for such numbers (see the section on
  whole numbers).
\<close>

datatype jsnum = NaN | NInf | Fin rat | PInf

fun jsadd :: "jsnum \<Rightarrow> jsnum \<Rightarrow> jsnum" where
  "jsadd NaN _ = NaN"
| "jsadd _ NaN = NaN"
| "jsadd PInf NInf = NaN"
| "jsadd NInf PInf = NaN"
| "jsadd PInf _ = PInf"
| "jsadd _ PInf = PInf"
| "jsadd NInf _ = NInf"
| "jsadd _ NInf = NInf"
| "jsadd (Fin a) (Fin b) = Fin (a + b)"

fun jsneg :: "jsnum \<Rightarrow> jsnum" where
  "jsneg NaN = NaN"
| "jsneg NInf = PInf"
| "jsneg PInf = NInf"
| "jsneg (Fin a) = Fin (- a)"

instantiation jsnum :: "{zero, plus, minus, uminus}"
begin

definition zero_jsnum :: jsnum where "zero_jsnum = Fin 0"
definition plus_jsnum :: "jsnum \<Rightarrow> jsnum \<Rightarrow> jsnum" where "plus_jsnum a b = jsadd a b"
definition uminus_jsnum :: "jsnum \<Rightarrow> jsnum" where "uminus_jsnum a = jsneg a"
definition minus_jsnum :: "jsnum \<Rightarrow> jsnum \<Rightarrow> jsnum" where "minus_jsnum a b = jsadd a (jsneg b)"

instance ..

end

text \<open>\<open>a * b\<close>: zero times an infinity is NaN.\<close>

fun jsmul :: "jsnum \<Rightarrow> jsnum \<Rightarrow> jsnum" where
  "jsmul NaN _ = NaN"
| "jsmul _ NaN = NaN"
| "jsmul (Fin a) (Fin b) = Fin (a * b)"
| "jsmul (Fin a) PInf = (if a = 0 then NaN else if 0 < a then PInf else NInf)"
| "jsmul (Fin a) NInf = (if a = 0 then NaN else if 0 < a then NInf else PInf)"
| "jsmul PInf (Fin b) = (if b = 0 then NaN else if 0 < b then PInf else NInf)"
| "jsmul NInf (Fin b) = (if b = 0 then NaN else if 0 < b then NInf else PInf)"
| "jsmul PInf PInf = PInf"
| "jsmul NInf NInf = PInf"
| "jsmul PInf NInf = NInf"
| "jsmul NInf PInf = NInf"

text \<open>\<open>a / b\<close>: a finite number over zero is an infinity of its sign, \<open>0 / 0\<close> is NaN.\<close>

fun jsdiv :: "jsnum \<Rightarrow> jsnum \<Rightarrow> jsnum" where
  "jsdiv NaN _ = NaN"
| "jsdiv _ NaN = NaN"
| "jsdiv (Fin a) (Fin b) =
     (if b \<noteq> 0 then Fin (a / b) else if a = 0 then NaN else if 0 < a then PInf else NInf)"
| "jsdiv (Fin a) PInf = Fin 0"
| "jsdiv (Fin a) NInf = Fin 0"
| "jsdiv PInf (Fin b) = (if 0 \<le> b then PInf else NInf)"
| "jsdiv NInf (Fin b) = (if 0 \<le> b then NInf else PInf)"
| "jsdiv PInf PInf = NaN"
| "jsdiv NInf NInf = NaN"
| "jsdiv PInf NInf = NaN"
| "jsdiv NInf PInf = NaN"

text \<open>\<open>a < b\<close>: every comparison with NaN is false.\<close>

fun jslt :: "jsnum \<Rightarrow> jsnum \<Rightarrow> bool" where
  "jslt NaN _ = False"
| "jslt _ NaN = False"
| "jslt (Fin a) (Fin b) = (a < b)"
| "jslt NInf NInf = False"
| "jslt NInf _ = True"
| "jslt _ NInf = False"
| "jslt PInf _ = False"
| "jslt _ PInf = True"

definition jsgt :: "jsnum \<Rightarrow> jsnum \<Rightarrow> bool" where
  "jsgt a b = jslt b a"

definition jsge :: "jsnum \<Rightarrow> jsnum \<Rightarrow> bool" where
  "jsge a b = (a \<noteq> NaN \<and> b \<noteq> NaN \<and> \<not> jslt a b)"

definition jsle :: "jsnum \<Rightarrow> jsnum \<Rightarrow> bool" where
  "jsle a b = jsge b a"

definition Math_max :: "jsnum \<Rightarrow> jsnum \<Rightarrow> jsnum" where
  "Math_max a b = (if a = NaN \<or> b = NaN then NaN else if jslt a b then b else a)"

definition Math_min :: "jsnum \<Rightarrow> jsnum \<Rightarrow> jsnum" where
  "Math_min a b = (if a = NaN \<or> b = NaN then NaN else if jslt b a then b else a)"

fun Math_floor :: "jsnum \<Rightarrow> jsnum" where
  "Math_floor (Fin a) = Fin (of_int \<lfloor>a\<rfloor>)"
| "Math_floor x = x"

text \<open>\<open>Math.round\<close> rounds a half towards positive infinity.\<close>

fun Math_round :: "jsnum \<Rightarrow> jsnum" where
  "Math_round (Fin a) = Fin (of_int \<lfloor>a + 1 / 2\<rfloor>)"
| "Math_round x = x"

section \<open>Helpers of the util module\<close>

text \<open>
  Modelled from the spec: \<open>clamp\<close> of the util module, whose source is not part of the
  sources at hand. The spec says that a value is ``clamped into'' a range, that requests
  outside the feasible bounds ``are clamped rather than rejected'' and that the engine
  never signals an error during layout; the model is
  \<open>Math.min(max, Math.max(value, min))\<close>, which returns \<open>max\<close> for an empty range.
\<close>

definition clamp :: "jsnum \<Rightarrow> jsnum \<Rightarrow> jsnum \<Rightarrow> jsnum" where
  "clamp v lo hi = Math_min hi (Math_max v lo)"

record view =
  minimumSize :: jsnum
  maximumSize :: jsnum
  snapSize :: "jsnum option"

text \<open>
  Modelled from the spec: \<open>clampView\<close> of the util module (source not at hand). The
  spec: a size is clamped to the item's bounds, and the snap size is ``a threshold below
  which the item is treated as collapsible to zero rather than clamped to minimum'', so
  that an allocated size is within \<open>[minimum, maximum]\<close> or is 0 for an item that
  declares a snap size.
\<close>

definition clampView :: "view \<Rightarrow> jsnum \<Rightarrow> jsnum" where
  "clampView v sz =
     (let result = clamp sz (minimumSize v) (maximumSize v) in
      case snapSize v of
        None \<Rightarrow> result
      | Some snap \<Rightarrow>
          if jsge sz (minimumSize v) then result
          else if jslt sz (Math_min snap (minimumSize v)) then 0 else minimumSize v)"

text \<open>
  Modelled from the spec: \<open>range\<close> of the util module (source not at hand; named
  \<open>range_js\<close> here). The
  callers use \<open>range(index, -1)\<close> for the up side, items \<open>index\<close> down to 0, and
  \<open>range(index + 1, length)\<close> for the down side, items \<open>index + 1\<close> to the end:
  the numbers from \<open>from\<close> towards \<open>to\<close>, \<open>to\<close> excluded.
\<close>

definition range_js :: "int \<Rightarrow> int \<Rightarrow> int list" where
  "range_js from to =
     (if from \<le> to then map (\<lambda>k. from + int k) [0..<nat (to - from)]
      else map (\<lambda>k. from - int k) [0..<nat (from - to)])"

text \<open>
  Modelled from the spec: \<open>pushToStart\<close> and \<open>pushToEnd\<close> of the util module
  (source not at hand). The spec's words on the priority indexes of \<open>resize\<close>: they
  ``are moved to the back of their side's processing order --- i.e., high-priority items
  absorb delta changes last so they shrink/grow least; low-priority items absorb first''.
  \<open>resize\<close> hands every high-priority index to \<open>pushToStart\<close> and every low-priority
  index to \<open>pushToEnd\<close>, and its loops process an index list from position 0 on. So in
  the model \<open>pushToStart\<close> moves a value that occurs in the array to the last position
  (it is processed last) and \<open>pushToEnd\<close> moves it to the first position (it is
  processed first); an array without the value is left as it is.
\<close>

definition pushToStart :: "int list \<Rightarrow> int \<Rightarrow> int list" where
  "pushToStart arr v = (if v \<in> set arr then remove1 v arr @ [v] else arr)"

definition pushToEnd :: "int list \<Rightarrow> int \<Rightarrow> int list" where
  "pushToEnd arr v = (if v \<in> set arr then v # remove1 v arr else arr)"

section \<open>The split view\<close>

text \<open>
  Of a view the engine reads the minimum, the maximum and the optional snap size. A view
  item pairs the view with its allocated size. Of a sash only the offset that
  \<open>layoutViews\<close> writes into its style is kept. DOM containers, listeners and the
  orientation (which only selects the style property that is written) are left out.
\<close>

record viewItem =
  view :: view
  size_item :: jsnum

record sashItem =
  offset :: "jsnum option"

text \<open>
  The fields \<open>size\<close>, \<open>orthogonalSize\<close>, \<open>contentSize\<close> and \<open>_proportions\<close> have
  no initialiser: \<open>None\<close> is JavaScript's \<open>undefined\<close>.
\<close>

record splitview =
  views :: "viewItem list"
  sashes :: "sashItem list"
  size_sv :: "jsnum option"
  orthogonalSize :: "jsnum option"
  contentSize :: "jsnum option"
  proportions :: "jsnum list option"

datatype error = TypeError

text \<open>A thrown error carries the state as mutated up to the throw.\<close>

type_synonym 'a result = "(error \<times> splitview) + 'a"

definition andThen :: "'a result \<Rightarrow> ('a \<Rightarrow> 'b result) \<Rightarrow> 'b result" where
  "andThen r f = (case r of Inl e \<Rightarrow> Inl e | Inr x \<Rightarrow> f x)"

text \<open>\<open>undefined\<close> in arithmetic is NaN.\<close>

definition toNumber :: "jsnum option \<Rightarrow> jsnum" where
  "toNumber x = (case x of None \<Rightarrow> NaN | Some a \<Rightarrow> a)"

text \<open>\<open>arr[i]\<close> for an array of numbers read in arithmetic: out of range gives NaN.\<close>

definition num_at :: "jsnum list \<Rightarrow> int \<Rightarrow> jsnum" where
  "num_at xs i = (if 0 \<le> i \<and> i < int (length xs) then xs ! nat i else NaN)"

definition views_at :: "viewItem list \<Rightarrow> int \<Rightarrow> viewItem option" where
  "views_at vs i = (if 0 \<le> i \<and> i < int (length vs) then Some (vs ! nat i) else None)"

text \<open>\<open>this.views.reduce((r, i) => r + i.size, 0)\<close>\<close>

definition sumSizes :: "viewItem list \<Rightarrow> jsnum" where
  "sumSizes vs = foldl (\<lambda>r i. r + size_item i) 0 vs"

definition minimumSize_sv :: "splitview \<Rightarrow> jsnum" where
  "minimumSize_sv st = foldl (\<lambda>r item. r + minimumSize (view item)) 0 (views st)"

definition maximumSize_sv :: "splitview \<Rightarrow> jsnum" where
  "maximumSize_sv st =
     (if length (views st) = 0 then PInf
      else foldl (\<lambda>r item. r + maximumSize (view item)) 0 (views st))"

definition getViewSize :: "splitview \<Rightarrow> int \<Rightarrow> jsnum" where
  "getViewSize st index =
     (if index < 0 \<or> index \<ge> int (length (views st)) then Fin (- 1)
      else size_item (views st ! nat index))"

subsection \<open>resize\<close>

text \<open>\<open>typeof view.snapSize === "number" ? 0 : view.minimumSize\<close>\<close>

definition snapMinimum :: "view \<Rightarrow> jsnum" where
  "snapMinimum v = (case snapSize v of Some _ \<Rightarrow> 0 | None \<Rightarrow> minimumSize v)"

text \<open>The index lists of the two sides, after the priority indexes have been moved.\<close>

definition upIndexes :: "int \<Rightarrow> int list option \<Rightarrow> int list option \<Rightarrow> int list" where
  "upIndexes index lowPriorityIndexes highPriorityIndexes =
     (let up = range_js index (- 1);
          up = (case highPriorityIndexes of None \<Rightarrow> up | Some hs \<Rightarrow> foldl pushToStart up hs);
          up = (case lowPriorityIndexes of None \<Rightarrow> up | Some ls \<Rightarrow> foldl pushToEnd up ls)
      in up)"

definition downIndexes :: "int \<Rightarrow> nat \<Rightarrow> int list option \<Rightarrow> int list option \<Rightarrow> int list" where
  "downIndexes index n lowPriorityIndexes highPriorityIndexes =
     (let down = range_js (index + 1) (int n);
          down = (case highPriorityIndexes of None \<Rightarrow> down | Some hs \<Rightarrow> foldl pushToStart down hs);
          down = (case lowPriorityIndexes of None \<Rightarrow> down | Some ls \<Rightarrow> foldl pushToEnd down ls)
      in down)"

definition minDeltaUp :: "viewItem list \<Rightarrow> jsnum list \<Rightarrow> int list \<Rightarrow> jsnum" where
  "minDeltaUp vs sizes up =
     foldl (\<lambda>acc i. acc + snapMinimum (view (vs ! nat i)) - num_at sizes i) 0 up"

definition maxDeltaUp :: "viewItem list \<Rightarrow> jsnum list \<Rightarrow> int list \<Rightarrow> jsnum" where
  "maxDeltaUp vs sizes up =
     foldl (\<lambda>acc i. acc + maximumSize (view (vs ! nat i)) - num_at sizes i) 0 up"

definition maxDeltaDown :: "viewItem list \<Rightarrow> jsnum list \<Rightarrow> int list \<Rightarrow> jsnum" where
  "maxDeltaDown vs sizes down =
     (if length down = 0 then PInf
      else foldl (\<lambda>acc i. acc + num_at sizes i - snapMinimum (view (vs ! nat i))) 0 down)"

definition minDeltaDown :: "viewItem list \<Rightarrow> jsnum list \<Rightarrow> int list \<Rightarrow> jsnum" where
  "minDeltaDown vs sizes down =
     (if length down = 0 then NInf
      else foldl (\<lambda>acc i. acc + num_at sizes i - maximumSize (view (vs ! nat i))) 0 down)"

definition tentativeDelta :: "viewItem list \<Rightarrow> jsnum list \<Rightarrow> int list \<Rightarrow> int list \<Rightarrow> jsnum \<Rightarrow> jsnum" where
  "tentativeDelta vs sizes up down delta =
     (let minDelta = Math_max (minDeltaUp vs sizes up) (minDeltaDown vs sizes down);
          maxDelta = Math_min (maxDeltaDown vs sizes down) (maxDeltaUp vs sizes up)
      in clamp delta minDelta maxDelta)"

text \<open>
  The loop over the up side: each item takes what its clamp allows of the delta that is
  left; the result is the items and the delta actually applied.
\<close>

fun resizeUp :: "viewItem list \<Rightarrow> jsnum list \<Rightarrow> int list \<Rightarrow> jsnum \<Rightarrow> jsnum \<Rightarrow> viewItem list \<times> jsnum" where
  "resizeUp vs sizes [] deltaUp actualDelta = (vs, actualDelta)"
| "resizeUp vs sizes (i # is) deltaUp actualDelta =
     (let item = vs ! nat i;
          sz = clampView (view item) (num_at sizes i + deltaUp);
          viewDelta = sz - num_at sizes i
      in resizeUp (vs[nat i := item\<lparr>size_item := sz\<rparr>]) sizes is
           (deltaUp - viewDelta) (actualDelta + viewDelta))"

fun resizeDown :: "viewItem list \<Rightarrow> jsnum list \<Rightarrow> int list \<Rightarrow> jsnum \<Rightarrow> viewItem list" where
  "resizeDown vs sizes [] deltaDown = vs"
| "resizeDown vs sizes (i # is) deltaDown =
     (let item = vs ! nat i;
          sz = clampView (view item) (num_at sizes i - deltaDown);
          viewDelta = sz - num_at sizes i
      in resizeDown (vs[nat i := item\<lparr>size_item := sz\<rparr>]) sizes is (deltaDown + viewDelta))"

text \<open>
  \<open>resize\<close>. An index list can only name a missing item when \<open>index\<close> is the item count,
  which the guard lets through; reading \<open>this.views[i].view\<close> then throws before any
  size is written.
\<close>

definition resize ::
  "splitview \<Rightarrow> int \<Rightarrow> jsnum \<Rightarrow> jsnum list option \<Rightarrow> int list option \<Rightarrow> int list option
     \<Rightarrow> splitview result" where
  "resize st index delta sizesArg lowPriorityIndexes highPriorityIndexes =
     (if index < 0 \<or> index > int (length (views st)) then Inr st
      else
        let vs = views st;
            sizes = (case sizesArg of None \<Rightarrow> map size_item vs | Some ss \<Rightarrow> ss);
            up = upIndexes index lowPriorityIndexes highPriorityIndexes;
            down = downIndexes index (length vs) lowPriorityIndexes highPriorityIndexes
        in if list_ex (\<lambda>i. views_at vs i = None) (up @ down) then Inl (TypeError, st)
           else
             let (vs1, actualDelta) = resizeUp vs sizes up (tentativeDelta vs sizes up down delta) 0;
                 vs2 = resizeDown vs1 sizes down actualDelta
             in Inr (st\<lparr>views := vs2\<rparr>))"

subsection \<open>Settling: layoutViews, saveProportions, relayout, distributeEmptySpace\<close>

text \<open>
  The sash loop of \<open>layoutViews\<close>, over the items but the last, with the running sum of
  sizes: sash \<open>i\<close> gets the offset \<open>sum - 2\<close>. A missing sash makes
  \<open>this.sashes[i].container\<close> throw; the flag reports it, the sashes are those written
  so far.
\<close>

fun layoutSashes :: "jsnum \<Rightarrow> viewItem list \<Rightarrow> sashItem list \<Rightarrow> sashItem list \<times> bool" where
  "layoutSashes acc [] ss = (ss, False)"
| "layoutSashes acc (item # items) [] = ([], True)"
| "layoutSashes acc (item # items) (s # ss) =
     (let sum1 = acc + size_item item;
          (ss1, threw) = layoutSashes sum1 items ss
      in (s\<lparr>offset := Some (sum1 - Fin 2)\<rparr> # ss1, threw))"

definition layoutViews :: "splitview \<Rightarrow> splitview result" where
  "layoutViews st =
     (let st1 = st\<lparr>contentSize := Some (sumSizes (views st))\<rparr>;
          (ss, threw) = layoutSashes 0 (butlast (views st)) (sashes st);
          st2 = st1\<lparr>sashes := ss\<rparr>
      in if threw then Inl (TypeError, st2) else Inr st2)"

definition saveProportions :: "splitview \<Rightarrow> splitview" where
  "saveProportions st =
     (if jsgt (toNumber (contentSize st)) 0
      then st\<lparr>proportions :=
                Some (map (\<lambda>i. jsdiv (size_item i) (toNumber (contentSize st))) (views st))\<rparr>
      else st)"

definition relayout :: "splitview \<Rightarrow> int list option \<Rightarrow> int list option \<Rightarrow> splitview result" where
  "relayout st lowPriorityIndexes highPriorityIndexes =
     (let contentSize = sumSizes (views st) in
      andThen (resize st (int (length (views st)) - 1) (toNumber (size_sv st) - contentSize) None
                 lowPriorityIndexes highPriorityIndexes)
        (\<lambda>st1. andThen (layoutViews st1) (\<lambda>st2. Inr (saveProportions st2))))"

text \<open>
  The loop of \<open>distributeEmptySpace\<close>, given the items from the last to the first: it
  stops as soon as no empty delta is left.
\<close>

fun emptySpaceLoop :: "viewItem list \<Rightarrow> jsnum \<Rightarrow> viewItem list" where
  "emptySpaceLoop [] emptyDelta = []"
| "emptySpaceLoop (item # items) emptyDelta =
     (if emptyDelta = 0 then item # items
      else
        let sz = clampView (view item) (size_item item + emptyDelta);
            viewDelta = sz - size_item item
        in item\<lparr>size_item := sz\<rparr> # emptySpaceLoop items (emptyDelta - viewDelta))"

definition distributeEmptySpace :: "splitview \<Rightarrow> splitview" where
  "distributeEmptySpace st =
     (let contentSize = sumSizes (views st);
          emptyDelta = toNumber (size_sv st) - contentSize
      in st\<lparr>views := rev (emptySpaceLoop (rev (views st)) emptyDelta)\<rparr>)"

subsection \<open>layout, resizeView, distributeViewSizes\<close>

text \<open>
  \<open>layout\<close>: with no proportions saved yet, \<open>this._proportions[i]\<close> throws for the
  first item; a proportion missing from the array is \<open>undefined\<close>, NaN in the product.
\<close>

definition layout :: "splitview \<Rightarrow> jsnum \<Rightarrow> jsnum \<Rightarrow> splitview result" where
  "layout st sz orthogonal =
     (let st1 = st\<lparr>size_sv := Some sz, orthogonalSize := Some orthogonal\<rparr> in
      if views st = [] then layoutViews (distributeEmptySpace st1)
      else
        case proportions st of
          None \<Rightarrow> Inl (TypeError, st1)
        | Some ps \<Rightarrow>
            let vs = map (\<lambda>i. let item = views st ! i
                               in item\<lparr>size_item :=
                                    clampView (view item) (Math_round (jsmul (num_at ps (int i)) sz))\<rparr>)
                       [0..<length (views st)]
            in layoutViews (distributeEmptySpace (st1\<lparr>views := vs\<rparr>)))"

definition resizeView :: "splitview \<Rightarrow> int \<Rightarrow> jsnum \<Rightarrow> splitview result" where
  "resizeView st index sz =
     (if index < 0 \<or> index \<ge> int (length (views st)) then Inr st
      else
        let item = views st ! nat index;
            sz1 = Math_round sz;
            sz2 = clamp sz1 (minimumSize (view item))
                    (Math_min (maximumSize (view item)) (toNumber (size_sv st)))
        in relayout (st\<lparr>views := (views st)[nat index := item\<lparr>size_item := sz2\<rparr>]\<rparr>) None None)"

definition isFlexible :: "viewItem \<Rightarrow> bool" where
  "isFlexible item = jsgt (maximumSize (view item) - minimumSize (view item)) 0"

definition distributeViewSizes :: "splitview \<Rightarrow> splitview result" where
  "distributeViewSizes st =
     (let flexibleViewItems = filter isFlexible (views st);
          flexibleSize = foldl (\<lambda>r item. r + size_item item) 0 flexibleViewItems;
          sz = Math_floor (jsdiv flexibleSize (Fin (of_nat (length flexibleViewItems))));
          vs = map (\<lambda>item. if isFlexible item
                            then item\<lparr>size_item :=
                                   clamp sz (minimumSize (view item)) (maximumSize (view item))\<rparr>
                            else item) (views st)
      in relayout (st\<lparr>views := vs\<rparr>) None None)"

subsection \<open>addView, removeView, moveView\<close>

datatype sizing = Distribute | Split int

datatype sizeArg = Number jsnum | Sizing sizing

text \<open>
  The start position of \<open>Array.prototype.splice\<close> on an array of length \<open>n\<close>: a
  negative start counts from the end, and the result is kept within \<open>[0, n]\<close>.
\<close>

definition spliceStart :: "nat \<Rightarrow> int \<Rightarrow> nat" where
  "spliceStart n start = (if start < 0 then nat (max (int n + start) 0) else min (nat start) n)"

text \<open>
  \<open>addView\<close>: an omitted \<open>size\<close> is \<open>undefined\<close>, and \<open>size.type\<close> throws; an omitted
  \<open>index\<close> is the item count.
\<close>

definition addView ::
  "splitview \<Rightarrow> view \<Rightarrow> sizeArg option \<Rightarrow> int option \<Rightarrow> bool \<Rightarrow> splitview result" where
  "addView st v sizeOpt indexOpt skipLayout =
     (case sizeOpt of
        None \<Rightarrow> Inl (TypeError, st)
      | Some sz \<Rightarrow>
          let index = (case indexOpt of None \<Rightarrow> int (length (views st)) | Some i \<Rightarrow> i);
              viewSize = (case sz of
                            Number x \<Rightarrow> x
                          | Sizing (Split i) \<Rightarrow> jsdiv (getViewSize st i) (Fin 2)
                          | Sizing Distribute \<Rightarrow> minimumSize v);
              viewItem = \<lparr>view = v, size_item = viewSize\<rparr>;
              k = spliceStart (length (views st)) index;
              vs = take k (views st) @ viewItem # drop k (views st);
              ss = (if length vs > 1 then sashes st @ [\<lparr>offset = None\<rparr>] else sashes st);
              st1 = st\<lparr>views := vs, sashes := ss\<rparr>
          in andThen (if \<not> skipLayout then relayout st1 (Some [index]) None else Inr st1)
               (\<lambda>st2. if \<not> skipLayout \<and> sz = Sizing Distribute
                       then distributeViewSizes st2 else Inr st2))"

text \<open>
  \<open>removeView\<close>: when the splice removes nothing, \<open>viewItem\<close> is \<open>undefined\<close> and
  \<open>viewItem.dispose()\<close> throws; likewise \<open>sashItem.disposable()\<close> for a missing sash.
\<close>

definition removeView :: "splitview \<Rightarrow> int \<Rightarrow> sizing option \<Rightarrow> (splitview \<times> view) result" where
  "removeView st index sizingOpt =
     (let k = spliceStart (length (views st)) index in
      if k \<ge> length (views st) then Inl (TypeError, st)
      else
        let viewItem = views st ! k;
            st1 = st\<lparr>views := take k (views st) @ drop (Suc k) (views st)\<rparr>
        in andThen
             (if length (views st1) \<ge> 1 then
                let sashIndex = nat (max (index - 1) 0) in
                if sashIndex \<ge> length (sashes st1) then Inl (TypeError, st1)
                else Inr (st1\<lparr>sashes := take sashIndex (sashes st1) @ drop (Suc sashIndex) (sashes st1)\<rparr>)
              else Inr st1)
             (\<lambda>st2. andThen (relayout st2 None None)
               (\<lambda>st3. let st4 = distributeEmptySpace st3 in
                  andThen (if sizingOpt = Some Distribute then distributeViewSizes st4 else Inr st4)
                    (\<lambda>st5. Inr (st5, view viewItem)))))"

definition moveView :: "splitview \<Rightarrow> int \<Rightarrow> int \<Rightarrow> splitview result" where
  "moveView st from to =
     (let sz = getViewSize st from in
      andThen (removeView st from None)
        (\<lambda>(st1, v). addView st1 v (Some (Number sz)) (Some to) False))"

text \<open>The engine as the constructor leaves it when no descriptor is given.\<close>

definition newSplitView :: splitview where
  "newSplitView = \<lparr>views = [], sashes = [], size_sv = None, orthogonalSize = None,
                   contentSize = None, proportions = None\<rparr>"

section \<open>States used in the scenarios\<close>

definition withSizes :: "splitview \<Rightarrow> jsnum list \<Rightarrow> splitview" where
  "withSizes st ss = st\<lparr>views := map (\<lambda>(item, s). item\<lparr>size_item := s\<rparr>) (zip (views st) ss)\<rparr>"

definition plainView :: "rat \<Rightarrow> jsnum \<Rightarrow> view" where
  "plainView mn mx = \<lparr>minimumSize = Fin mn, maximumSize = mx, snapSize = None\<rparr>"

definition engineOf :: "viewItem list \<Rightarrow> jsnum \<Rightarrow> splitview" where
  "engineOf vs total_size =
     \<lparr>views = vs, sashes = replicate (length vs - 1) \<lparr>offset = None\<rparr>,
      size_sv = Some total_size, orthogonalSize = None, contentSize = None, proportions = None\<rparr>"

definition scenarioB :: splitview where
  "scenarioB = engineOf [\<lparr>view = plainView 50 PInf, size_item = Fin 100\<rparr>,
                         \<lparr>view = plainView 50 PInf, size_item = Fin 100\<rparr>] (Fin 200)"

definition scenarioC :: splitview where
  "scenarioC = engineOf [\<lparr>view = plainView 50 PInf, size_item = Fin 100\<rparr>,
                         \<lparr>view = plainView 90 PInf, size_item = Fin 100\<rparr>] (Fin 200)"

section \<open>Predicates used in the statements\<close>

text \<open>The numbers of items and of sashes.\<close>

definition shapeOf :: "splitview \<Rightarrow> nat \<times> nat" where
  "shapeOf st = (length (views st), length (sashes st))"

text \<open>The sash count is \<open>max(itemCount - 1, 0)\<close>.\<close>

definition sashCountOk :: "splitview \<Rightarrow> bool" where
  "sashCountOk st = (int (length (sashes st)) = max (int (length (views st)) - 1) 0)"

text \<open>The priority indexes of a call: none when the argument is omitted.\<close>

definition priorityList :: "int list option \<Rightarrow> int list" where
  "priorityList p = (case p of None \<Rightarrow> [] | Some xs \<Rightarrow> xs)"

text \<open>The baseline sizes of a \<open>resize\<close> call: the current sizes when the argument is omitted.\<close>

definition baselineSizes :: "splitview \<Rightarrow> jsnum list option \<Rightarrow> jsnum list" where
  "baselineSizes st sizesArg = (case sizesArg of None \<Rightarrow> map size_item (views st) | Some ss \<Rightarrow> ss)"

text \<open>
  The delta actually applied by a \<open>resize\<close> call with an index in range: the value of
  \<open>actualDelta\<close> after the loop over the up side.
\<close>

definition appliedDelta ::
  "splitview \<Rightarrow> int \<Rightarrow> jsnum \<Rightarrow> jsnum list option \<Rightarrow> int list option \<Rightarrow> int list option \<Rightarrow> jsnum" where
  "appliedDelta st index delta sizesArg lowPriorityIndexes highPriorityIndexes =
     (let vs = views st;
          sizes = baselineSizes st sizesArg;
          up = upIndexes index lowPriorityIndexes highPriorityIndexes;
          down = downIndexes index (length vs) lowPriorityIndexes highPriorityIndexes
      in snd (resizeUp vs sizes up (tentativeDelta vs sizes up down delta) 0))"

definition threeItems :: splitview where
  "threeItems = engineOf [\<lparr>view = plainView 0 PInf, size_item = Fin 100\<rparr>,
                          \<lparr>view = plainView 0 PInf, size_item = Fin 100\<rparr>,
                          \<lparr>view = plainView 0 PInf, size_item = Fin 100\<rparr>] (Fin 300)"

text \<open>
  The delta range of \<open>resize\<close> in the words of the specification: sums over the items
  \<open>0..index\<close> of the up side and \<open>index + 1..\<close> of the down side, in index order, of
  the effective minimum, respectively the maximum, minus the baseline size (for the down
  side the baseline size minus the bound). The effective minimum of an item is 0 if the
  item declares a snap size, else its stated minimum. With no down-side items the down
  side gives minus and plus infinity.
\<close>

definition effectiveMinimum :: "view \<Rightarrow> jsnum" where
  "effectiveMinimum v = (if snapSize v = None then minimumSize v else Fin 0)"

definition sumList :: "jsnum list \<Rightarrow> jsnum" where
  "sumList xs = foldr (+) xs 0"

definition specMinDeltaUp :: "viewItem list \<Rightarrow> jsnum list \<Rightarrow> int \<Rightarrow> jsnum" where
  "specMinDeltaUp vs sizes index =
     sumList (map (\<lambda>i. effectiveMinimum (view (vs ! i)) - num_at sizes (int i)) [0..<nat index + 1])"

definition specMaxDeltaUp :: "viewItem list \<Rightarrow> jsnum list \<Rightarrow> int \<Rightarrow> jsnum" where
  "specMaxDeltaUp vs sizes index =
     sumList (map (\<lambda>i. maximumSize (view (vs ! i)) - num_at sizes (int i)) [0..<nat index + 1])"

definition specMinDeltaDown :: "viewItem list \<Rightarrow> jsnum list \<Rightarrow> int \<Rightarrow> jsnum" where
  "specMinDeltaDown vs sizes index =
     (if index = int (length vs) - 1 then NInf
      else sumList (map (\<lambda>i. num_at sizes (int i) - maximumSize (view (vs ! i)))
                      [nat index + 1..<length vs]))"

definition specMaxDeltaDown :: "viewItem list \<Rightarrow> jsnum list \<Rightarrow> int \<Rightarrow> jsnum" where
  "specMaxDeltaDown vs sizes index =
     (if index = int (length vs) - 1 then PInf
      else sumList (map (\<lambda>i. num_at sizes (int i) - effectiveMinimum (view (vs ! i)))
                      [nat index + 1..<length vs]))"

definition specDelta :: "viewItem list \<Rightarrow> jsnum list \<Rightarrow> int \<Rightarrow> jsnum \<Rightarrow> jsnum" where
  "specDelta vs sizes index delta =
     clamp delta
       (Math_max (specMinDeltaUp vs sizes index) (specMinDeltaDown vs sizes index))
       (Math_min (specMaxDeltaDown vs sizes index) (specMaxDeltaUp vs sizes index))"

section \<open>Whole numbers\<close>

text \<open>
  The model adds and subtracts exactly. The program computes with doubles, whose sums and
  differences are exact as long as operands and result are whole numbers of magnitude at
  most \<open>2^53\<close>; an unbounded maximum is plus infinity, which is exact as well. The
  statements about sums of sizes are therefore made for whole numbers within a budget
  \<open>m\<close>: every minimum, finite maximum, size and container size is a whole number
  between 0 and \<open>m\<close>, a delta is one in magnitude, and \<open>4 * (itemCount + 1) * m\<close> is
  at most \<open>2^53\<close>, so that no sum the engine forms over the items leaves the exact range.
  This is the data model of the specification, where sizes are integers.
\<close>

definition wholeUpTo :: "rat \<Rightarrow> jsnum \<Rightarrow> bool" where
  "wholeUpTo m x = (case x of Fin r \<Rightarrow> r = of_int \<lfloor>r\<rfloor> \<and> 0 \<le> r \<and> r \<le> m | _ \<Rightarrow> False)"

definition wholeBudget :: "nat \<Rightarrow> rat \<Rightarrow> bool" where
  "wholeBudget n m = (4 * (of_nat n + 1) * m \<le> 2 ^ 53)"

definition wholeView :: "rat \<Rightarrow> view \<Rightarrow> bool" where
  "wholeView m v =
     (wholeUpTo m (minimumSize v) \<and> (maximumSize v = PInf \<or> wholeUpTo m (maximumSize v)))"

definition wholeItem :: "rat \<Rightarrow> viewItem \<Rightarrow> bool" where
  "wholeItem m item = (wholeView m (view item) \<and> wholeUpTo m (size_item item))"

section \<open>Items within their bounds\<close>

text \<open>
  An item is within its bounds when its minimum and its size are finite, the size lies
  between the minimum and the maximum (which may be plus infinity), and no snap size is
  declared.
\<close>

definition inBounds :: "viewItem \<Rightarrow> bool" where
  "inBounds item =
     (case (minimumSize (view item), size_item item) of
        (Fin a, Fin s) \<Rightarrow>
          a \<le> s \<and> jsle (Fin s) (maximumSize (view item)) \<and> snapSize (view item) = None
      | _ \<Rightarrow> False)"

text \<open>
  The clamp-and-pass-on step that the loops of \<open>resize\<close> and \<open>distributeEmptySpace\<close>
  share, on a list of items in processing order: each item takes what its clamp allows
  of the delta, the rest goes to the next item.
\<close>

fun absorb :: "viewItem list \<Rightarrow> jsnum \<Rightarrow> viewItem list" where
  "absorb [] d = []"
| "absorb (item # items) d =
     (let sz = clampView (view item) (size_item item + d);
          viewDelta = sz - size_item item
      in item\<lparr>size_item := sz\<rparr> # absorb items (d - viewDelta))"

text \<open>How far the items can grow and shrink in total (the latter is at most 0).\<close>

definition growRoom :: "viewItem list \<Rightarrow> jsnum" where
  "growRoom xs = sumList (map (\<lambda>item. maximumSize (view item) - size_item item) xs)"

definition shrinkRoom :: "viewItem list \<Rightarrow> jsnum" where
  "shrinkRoom xs = sumList (map (\<lambda>item. minimumSize (view item) - size_item item) xs)"

text \<open>
  The delta that the items have taken together, accumulated as \<open>resize\<close> accumulates
  \<open>actualDelta\<close>.
\<close>

fun absorbed :: "viewItem list \<Rightarrow> jsnum \<Rightarrow> jsnum \<Rightarrow> jsnum" where
  "absorbed [] d a = a"
| "absorbed (item # items) d a =
     (let sz = clampView (view item) (size_item item + d);
          viewDelta = sz - size_item item
      in absorbed items (d - viewDelta) (a + viewDelta))"

text \<open>Item \<open>i\<close> at its baseline size.\<close>

definition baselineItem :: "viewItem list \<Rightarrow> jsnum list \<Rightarrow> int \<Rightarrow> viewItem" where
  "baselineItem vs sizes i = (vs ! nat i)\<lparr>size_item := num_at sizes i\<rparr>"

text \<open>A number that is plus infinity or finite and not negative.\<close>

definition upperNonneg :: "jsnum \<Rightarrow> bool" where
  "upperNonneg x = (x = PInf \<or> (\<exists>r. x = Fin r \<and> 0 \<le> r))"

definition isFin :: "jsnum \<Rightarrow> bool" where
  "isFin x = (case x of Fin _ \<Rightarrow> True | _ \<Rightarrow> False)"

text \<open>A view with finite minimum and maximum, the minimum not above the maximum, and no snap size.\<close>

definition boundedView:: "view \<Rightarrow> bool" where
  "boundedView v =
     (case (minimumSize v, maximumSize v) of
        (Fin a, Fin b) \<Rightarrow> a \<le> b \<and> snapSize v = None
      | _ \<Rightarrow> False)"

definition oneBounded :: splitview where
  "oneBounded = (engineOf [\<lparr>view = plainView 0 (Fin 100), size_item = Fin 100\<rparr>] (Fin 100))
                   \<lparr>proportions := Some [Fin 1]\<rparr>"

definition twoBounded :: splitview where
  "twoBounded = (engineOf [\<lparr>view = plainView 50 (Fin 150), size_item = Fin 100\<rparr>,
                           \<lparr>view = plainView 50 (Fin 150), size_item = Fin 100\<rparr>] (Fin 200))
                   \<lparr>proportions := Some [Fin (1 / 4), Fin (3 / 4)]\<rparr>"

text \<open>
  An item fits its bounds when its minimum is finite and not negative and its size is
  finite and lies between the minimum and the maximum (which may be plus infinity). A
  snap size may be declared; an item that declares one also fits when it is collapsed:
  its size is 0, below its minimum and its snap size, where \<open>clampView\<close> leaves it.
\<close>

definition fitsBounds :: "viewItem \<Rightarrow> bool" where
  "fitsBounds item =
     (case (minimumSize (view item), size_item item) of
        (Fin a, Fin s) \<Rightarrow>
          0 \<le> a \<and> jsle (Fin s) (maximumSize (view item))
          \<and> (a \<le> s
               \<or> s = 0 \<and> (case snapSize (view item) of
                              None \<Rightarrow> False
                            | Some q \<Rightarrow> jslt (Fin 0) (Math_min q (Fin a))))
      | _ \<Rightarrow> False)"

text \<open>The sizes after the sash behind item \<open>i\<close> has moved by \<open>d\<close>: item \<open>i\<close> grows by
  \<open>d\<close> and the next item, if there is one, shrinks by \<open>d\<close>.\<close>

definition shiftSizes :: "viewItem list \<Rightarrow> nat \<Rightarrow> rat \<Rightarrow> viewItem list" where
  "shiftSizes vs i d =
     (let vs1 = vs[i := (vs ! i)\<lparr>size_item := size_item (vs ! i) + Fin d\<rparr>]
      in if Suc i < length vs
         then vs1[Suc i := (vs ! Suc i)\<lparr>size_item := size_item (vs ! Suc i) - Fin d\<rparr>]
         else vs1)"

text \<open>A number that is minus infinity or finite and not positive.\<close>

definition lowerNonpos :: "jsnum \<Rightarrow> bool" where
  "lowerNonpos x = (x = NInf \<or> (\<exists>r. x = Fin r \<and> r \<le> 0))"

text \<open>
  The two steps of \<open>distributeViewSizes\<close> before it settles: the even share of the
  flexible items, and its assignment to a flexible item.
\<close>

definition flexSize :: "viewItem list \<Rightarrow> jsnum" where
  "flexSize vs =
     Math_floor (jsdiv (foldl (\<lambda>r item. r + size_item item) 0 (filter isFlexible vs))
                       (Fin (of_nat (length (filter isFlexible vs)))))"

definition assignFlexible :: "jsnum \<Rightarrow> viewItem \<Rightarrow> viewItem" where
  "assignFlexible sz item =
     (if isFlexible item
      then item\<lparr>size_item := clamp sz (minimumSize (view item)) (maximumSize (view item))\<rparr>
      else item)"

text \<open>What \<open>layoutViews\<close> and \<open>saveProportions\<close> make of a state with a sash for every gap.\<close>

definition settled :: "splitview \<Rightarrow> splitview" where
  "settled u =
     saveProportions (u\<lparr>contentSize := Some (sumSizes (views u)),
                        sashes := fst (layoutSashes 0 (butlast (views u)) (sashes u))\<rparr>)"

definition twoLoose :: splitview where
  "twoLoose = engineOf [\<lparr>view = plainView 0 PInf, size_item = Fin 10\<rparr>,
                        \<lparr>view = plainView 0 PInf, size_item = Fin 20\<rparr>] (Fin 100)"

text \<open>Two states with an item that declares a snap size.\<close>

definition snapLayout :: splitview where
  "snapLayout =
     (engineOf [\<lparr>view = \<lparr>minimumSize = Fin 50, maximumSize = Fin 100, snapSize = Some (Fin 20)\<rparr>,
                 size_item = Fin 60\<rparr>,
                \<lparr>view = plainView 50 (Fin 100), size_item = Fin 60\<rparr>] (Fin 120))
       \<lparr>proportions := Some [Fin (1 / 10), Fin (9 / 10)]\<rparr>"

definition snapPair :: splitview where
  "snapPair =
     engineOf [\<lparr>view = plainView 0 (Fin 10), size_item = Fin 0\<rparr>,
               \<lparr>view = \<lparr>minimumSize = Fin 10, maximumSize = Fin 20, snapSize = Some (Fin 40)\<rparr>,
                size_item = Fin 15\<rparr>] (Fin 15)"

text \<open>
  States for the delta that \<open>resize\<close> applies: a single item that declares a snap size;
  the same item followed by a plain one; two items of which the first is above its
  maximum.
\<close>

definition snapOne :: splitview where
  "snapOne =
     engineOf [\<lparr>view = \<lparr>minimumSize = Fin 50, maximumSize = PInf, snapSize = Some (Fin 20)\<rparr>,
                size_item = Fin 100\<rparr>] (Fin 100)"

definition snapTwo :: splitview where
  "snapTwo =
     engineOf [\<lparr>view = \<lparr>minimumSize = Fin 50, maximumSize = PInf, snapSize = Some (Fin 20)\<rparr>,
                size_item = Fin 100\<rparr>,
               \<lparr>view = plainView 50 PInf, size_item = Fin 100\<rparr>] (Fin 200)"

definition overfull :: splitview where
  "overfull = engineOf [\<lparr>view = plainView 0 (Fin 90), size_item = Fin 100\<rparr>,
                        \<lparr>view = plainView 50 (Fin 60), size_item = Fin 10\<rparr>] (Fin 110)"

text \<open>A collapsed item that declares a snap size, followed by a plain one.\<close>

definition collapsedPair :: splitview where
  "collapsedPair =
     engineOf [\<lparr>view = \<lparr>minimumSize = Fin 50, maximumSize = PInf, snapSize = Some (Fin 20)\<rparr>,
                size_item = Fin 0\<rparr>,
               \<lparr>view = plainView 50 PInf, size_item = Fin 200\<rparr>] (Fin 200)"

text \<open>A fixed-range item at its maximum and an unbounded one.\<close>

definition twoUneven :: splitview where
  "twoUneven = engineOf [\<lparr>view = plainView 0 (Fin 60), size_item = Fin 60\<rparr>,
                         \<lparr>view = plainView 0 PInf, size_item = Fin 140\<rparr>] (Fin 200)"

section \<open>Basic facts about the operations\<close>

subsection \<open>Index lists, errors and the shape of the state\<close>

lemma andThen_Inr [simp]: "andThen (Inr x) f = f x"
  by (simp add: andThen_def)

lemma andThen_Inl [simp]: "andThen (Inl e) f = Inl e"
  by (simp add: andThen_def)

lemma length_resizeUp [simp]: "length (fst (resizeUp vs sizes is d a)) = length vs"
  by (induction "is" arbitrary: vs d a) (simp_all add: Let_def)

lemma length_resizeDown [simp]: "length (resizeDown vs sizes is d) = length vs"
  by (induction "is" arbitrary: vs d) (simp_all add: Let_def)

lemma mset_pushToStart [simp]: "mset (pushToStart arr v) = mset arr"
  by (simp add: pushToStart_def)

lemma mset_pushToEnd [simp]: "mset (pushToEnd arr v) = mset arr"
  by (simp add: pushToEnd_def)

lemma mset_foldl_pushToStart [simp]: "mset (foldl pushToStart arr hs) = mset arr"
  by (induction hs arbitrary: arr) simp_all

lemma mset_foldl_pushToEnd [simp]: "mset (foldl pushToEnd arr ls) = mset arr"
  by (induction ls arbitrary: arr) simp_all

lemma mset_upIndexes: "mset (upIndexes index low high) = mset (range_js index (- 1))"
  by (simp add: upIndexes_def Let_def split: option.splits)

lemma mset_downIndexes: "mset (downIndexes index n low high) = mset (range_js (index + 1) (int n))"
  by (simp add: downIndexes_def Let_def split: option.splits)

lemma set_range_js_up: "0 \<le> index \<Longrightarrow> set (range_js index (- 1)) = {0..index}"
  apply (auto simp: range_js_def image_iff)
  subgoal for x by (rule bexI [of _ "nat (index - x)"]) auto
  done

lemma set_range_js_down: "index + 1 \<le> int n \<Longrightarrow> set (range_js (index + 1) (int n)) = {index + 1..<int n}"
  apply (auto simp: range_js_def image_iff)
  subgoal for x by (rule bexI [of _ "nat (x - index - 1)"]) auto
  done

lemma set_upIndexes: "0 \<le> index \<Longrightarrow> set (upIndexes index low high) = {0..index}"
  using mset_upIndexes [of index low high] set_range_js_up [of index]
  by (metis set_mset_mset)

lemma set_downIndexes: "index + 1 \<le> int n \<Longrightarrow> set (downIndexes index n low high) = {index + 1..<int n}"
  using mset_downIndexes [of index n low high] set_range_js_down [of index n]
  by (metis set_mset_mset)

lemma resize_out_of_range: "index < 0 \<or> int (length (views st)) < index \<Longrightarrow> resize st index d sz low high = Inr st"
  by (auto simp: resize_def)

lemma resize_in_range:
  assumes "0 \<le> index" "index < int (length (views st))"
  shows "resize st index d sz low high =
           Inr (st\<lparr>views :=
              (let vs = views st;
                   sizes = (case sz of None \<Rightarrow> map size_item vs | Some ss \<Rightarrow> ss);
                   up = upIndexes index low high;
                   down = downIndexes index (length vs) low high;
                   r = resizeUp vs sizes up (tentativeDelta vs sizes up down d) 0
               in resizeDown (fst r) sizes down (snd r))\<rparr>)"
proof -
  have "\<not> list_ex (\<lambda>i. views_at (views st) i = None)
          (upIndexes index low high @ downIndexes index (length (views st)) low high)"
    using assms set_upIndexes [of index low high] set_downIndexes [of index "length (views st)" low high]
    by (auto simp: list_ex_iff views_at_def)
  then show ?thesis using assms
    by (simp add: resize_def Let_def split_beta)
qed

lemma resize_shape:
  "resize st index d sz low high = Inr st' \<Longrightarrow> shapeOf st' = shapeOf st"
  by (auto simp: resize_def shapeOf_def Let_def split_beta split: if_splits)

lemma resize_total:
  "index < int (length (views st)) \<Longrightarrow> \<exists>st'. resize st index d sz low high = Inr st'"
  by (cases "0 \<le> index") (simp_all add: resize_in_range resize_out_of_range)

lemma layoutSashes_ok:
  "length items \<le> length ss \<Longrightarrow>
     snd (layoutSashes acc items ss) = False \<and> length (fst (layoutSashes acc items ss)) = length ss"
proof (induction acc items ss rule: layoutSashes.induct)
  case (3 acc item items s ss)
  then show ?case by (simp add: Let_def split_beta)
qed simp_all

lemma layoutViews_ok:
  assumes "length (views st) - 1 \<le> length (sashes st)"
  shows "layoutViews st = Inr (st\<lparr>contentSize := Some (sumSizes (views st)),
                                   sashes := fst (layoutSashes 0 (butlast (views st)) (sashes st))\<rparr>)
         \<and> length (fst (layoutSashes 0 (butlast (views st)) (sashes st))) = length (sashes st)"
proof -
  have "length (butlast (views st)) \<le> length (sashes st)" using assms by simp
  from layoutSashes_ok [OF this, of 0] show ?thesis
    by (simp add: layoutViews_def Let_def split_beta)
qed

lemma saveProportions_views [simp]: "views (saveProportions st) = views st"
  and saveProportions_sashes [simp]: "sashes (saveProportions st) = sashes st"
  and saveProportions_size [simp]: "size_sv (saveProportions st) = size_sv st"
  by (simp_all add: saveProportions_def)

lemma shapeOf_saveProportions [simp]: "shapeOf (saveProportions st) = shapeOf st"
  by (simp add: shapeOf_def)

lemma relayout_ok:
  assumes "length (views st) - 1 \<le> length (sashes st)"
  shows "\<exists>st'. relayout st low high = Inr st' \<and> shapeOf st' = shapeOf st"
proof -
  obtain st1 where r: "resize st (int (length (views st)) - 1) (toNumber (size_sv st) - sumSizes (views st)) None low high = Inr st1"
    using resize_total [of "int (length (views st)) - 1" st] by force
  then have s1: "shapeOf st1 = shapeOf st" by (rule resize_shape)
  then have "length (views st1) - 1 \<le> length (sashes st1)" using assms by (simp add: shapeOf_def)
  from layoutViews_ok [OF this] show ?thesis using r s1
    by (simp add: relayout_def Let_def shapeOf_def)
qed

lemma shapeOf_distributeEmptySpace [simp]: "shapeOf (distributeEmptySpace st) = shapeOf st"
proof -
  have "length (emptySpaceLoop xs e) = length xs" for xs e
    by (induction xs arbitrary: e) (simp_all add: Let_def)
  then show ?thesis by (simp add: distributeEmptySpace_def shapeOf_def Let_def)
qed

lemma distributeViewSizes_ok:
  assumes "length (views st) - 1 \<le> length (sashes st)"
  shows "\<exists>st'. distributeViewSizes st = Inr st' \<and> shapeOf st' = shapeOf st"
proof -
  let ?vs = "map (\<lambda>item. if isFlexible item
                            then item\<lparr>size_item :=
                                   clamp (Math_floor (jsdiv (foldl (\<lambda>r item. r + size_item item) 0 (filter isFlexible (views st))) (Fin (of_nat (length (filter isFlexible (views st))))))) (minimumSize (view item)) (maximumSize (view item))\<rparr>
                            else item) (views st)"
  have "length (views (st\<lparr>views := ?vs\<rparr>)) - 1 \<le> length (sashes (st\<lparr>views := ?vs\<rparr>))"
    using assms by simp
  from relayout_ok [OF this, of None None] show ?thesis
    by (simp add: distributeViewSizes_def Let_def shapeOf_def)
qed

subsection \<open>Adding and removing items\<close>

lemma sashCountOk_iff: "sashCountOk st \<longleftrightarrow> length (sashes st) = length (views st) - 1"
  by (auto simp: sashCountOk_def)

lemma sashCountOk_shape: "shapeOf st' = shapeOf st \<Longrightarrow> sashCountOk st' = sashCountOk st"
  by (simp add: sashCountOk_def shapeOf_def)

lemma addView_ok:
  assumes "sashCountOk st"
  shows "\<exists>st'. addView st v (Some sz) indexOpt skipLayout = Inr st'
            \<and> length (views st') = length (views st) + 1
            \<and> length (sashes st') = length (sashes st) + (if length (views st) + 1 > 1 then 1 else 0)"
proof -
  define index where "index = (case indexOpt of None \<Rightarrow> int (length (views st)) | Some i \<Rightarrow> i)"
  define viewItem where "viewItem = \<lparr>view = v, size_item = (case sz of
                            Number x \<Rightarrow> x
                          | Sizing (Split i) \<Rightarrow> jsdiv (getViewSize st i) (Fin 2)
                          | Sizing Distribute \<Rightarrow> minimumSize v)\<rparr>"
  define k where "k = spliceStart (length (views st)) index"
  define vs where "vs = take k (views st) @ viewItem # drop k (views st)"
  define ss where "ss = (if length vs > 1 then sashes st @ [\<lparr>offset = None\<rparr>] else sashes st)"
  define st1 where "st1 = st\<lparr>views := vs, sashes := ss\<rparr>"
  have k: "k \<le> length (views st)" by (auto simp: k_def spliceStart_def)
  have lv: "length vs = length (views st) + 1" using k by (simp add: vs_def)
  have ls: "length ss = length (sashes st) + (if length (views st) + 1 > 1 then 1 else 0)"
    by (simp add: ss_def lv)
  have sh1: "shapeOf st1 = (length (views st) + 1, length (sashes st) + (if length (views st) + 1 > 1 then 1 else 0))"
    by (simp add: shapeOf_def st1_def lv ls)
  have ok1: "length (views st1) - 1 \<le> length (sashes st1)"
    using assms sh1 by (auto simp: shapeOf_def sashCountOk_iff split: if_splits)
  have eq: "addView st v (Some sz) indexOpt skipLayout =
     andThen (if \<not> skipLayout then relayout st1 (Some [index]) None else Inr st1)
               (\<lambda>st2. if \<not> skipLayout \<and> sz = Sizing Distribute
                       then distributeViewSizes st2 else Inr st2)"
    by (simp add: addView_def Let_def index_def viewItem_def k_def vs_def ss_def st1_def)
  show ?thesis
  proof (cases skipLayout)
    case True
    then show ?thesis using eq sh1 by (simp add: shapeOf_def)
  next
    case False
    from relayout_ok [OF ok1, of "Some [index]" None] obtain st2 where
      r: "relayout st1 (Some [index]) None = Inr st2" and s2: "shapeOf st2 = shapeOf st1" by blast
    show ?thesis
    proof (cases "sz = Sizing Distribute")
      case True
      have "length (views st2) - 1 \<le> length (sashes st2)" using ok1 s2 by (simp add: shapeOf_def)
      from distributeViewSizes_ok [OF this] obtain st3 where
        "distributeViewSizes st2 = Inr st3" "shapeOf st3 = shapeOf st2" by blast
      then show ?thesis using eq False True r s2 sh1 by (simp add: shapeOf_def)
    next
      case F2: False
      then show ?thesis using eq False r s2 sh1 by (simp add: shapeOf_def)
    qed
  qed
qed

lemma removeView_missing:
  "length (views st) \<le> spliceStart (length (views st)) index \<Longrightarrow>
     removeView st index sizingOpt = Inl (TypeError, st)"
  by (simp add: removeView_def Let_def)

lemma removeView_ok:
  assumes inv: "sashCountOk st" and k: "spliceStart (length (views st)) index < length (views st)"
  shows "\<exists>st'. removeView st index sizingOpt = Inr (st', view (views st ! spliceStart (length (views st)) index))
            \<and> length (views st') = length (views st) - 1
            \<and> length (sashes st') = length (sashes st) - (if length (views st) - 1 \<ge> 1 then 1 else 0)"
proof -
  define k where "k = spliceStart (length (views st)) index"
  define st1 where "st1 = st\<lparr>views := take k (views st) @ drop (Suc k) (views st)\<rparr>"
  define sashIndex where "sashIndex = nat (max (index - 1) 0)"
  define st2 where "st2 = (if length (views st1) \<ge> 1
      then st1\<lparr>sashes := take sashIndex (sashes st1) @ drop (Suc sashIndex) (sashes st1)\<rparr> else st1)"
  have kk: "k < length (views st)" using k by (simp add: k_def)
  have lv1: "length (views st1) = length (views st) - 1" using kk by (simp add: st1_def) 
  have ls1: "length (sashes st1) = length (views st) - 1" using inv by (simp add: st1_def sashCountOk_iff)
  have kle: "index < 0 \<or> nat index = k"
    using kk by (auto simp: k_def spliceStart_def split: if_splits)
  have si: "length (views st1) \<ge> 1 \<Longrightarrow> sashIndex < length (sashes st1)"
    using kle kk lv1 ls1 by (auto simp: sashIndex_def)
  have step1: "(if length (views st1) \<ge> 1 then
                let sashIndex = nat (max (index - 1) 0) in
                if sashIndex \<ge> length (sashes st1) then Inl (TypeError, st1)
                else Inr (st1\<lparr>sashes := take sashIndex (sashes st1) @ drop (Suc sashIndex) (sashes st1)\<rparr>)
              else Inr st1) = Inr st2"
    using si by (auto simp: st2_def sashIndex_def Let_def)
  have sh2: "shapeOf st2 = (length (views st) - 1, length (sashes st) - (if length (views st) - 1 \<ge> 1 then 1 else 0))"
    using si lv1 ls1 inv by (auto simp: st2_def shapeOf_def sashCountOk_iff)
  have ok2: "length (views st2) - 1 \<le> length (sashes st2)"
    using sh2 inv by (auto simp: shapeOf_def sashCountOk_iff split: if_splits)
  from relayout_ok [OF ok2, of None None] obtain st3 where
    r: "relayout st2 None None = Inr st3" and s3: "shapeOf st3 = shapeOf st2" by blast
  define st4 where "st4 = distributeEmptySpace st3"
  have s4: "shapeOf st4 = shapeOf st2" using s3 by (simp add: st4_def)
  have "\<exists>st5. (if sizingOpt = Some Distribute then distributeViewSizes st4 else Inr st4) = Inr st5
          \<and> shapeOf st5 = shapeOf st2"
  proof (cases "sizingOpt = Some Distribute")
    case True
    have "length (views st4) - 1 \<le> length (sashes st4)" using ok2 s4 by (simp add: shapeOf_def)
    from distributeViewSizes_ok [OF this] show ?thesis using True s4 by auto
  next
    case False
    then show ?thesis using s4 by simp
  qed
  then obtain st5 where d: "(if sizingOpt = Some Distribute then distributeViewSizes st4 else Inr st4) = Inr st5"
    and s5: "shapeOf st5 = shapeOf st2" by blast
  have "removeView st index sizingOpt = Inr (st5, view (views st ! k))"
    using kk step1 r d [unfolded st4_def]
    unfolding removeView_def k_def [symmetric] Let_def st1_def [symmetric]
    by (cases "sizingOpt = Some Distribute") simp_all
  then show ?thesis using s5 sh2 by (auto simp: shapeOf_def k_def)
qed

subsection \<open>The processing order\<close>

lemma distinct_range_js: "distinct (range_js a b)"
  by (auto simp: range_js_def distinct_map inj_on_def)

lemma pushToStart_decomp:
  assumes "distinct xs"
  shows "\<exists>H. foldl pushToStart xs hs = filter (\<lambda>x. x \<notin> set hs) xs @ H
             \<and> set H = set xs \<inter> set hs \<and> distinct H"
proof (induction hs rule: rev_induct)
  case Nil
  show ?case by simp
next
  case (snoc h hs)
  then obtain H where H: "foldl pushToStart xs hs = filter (\<lambda>x. x \<notin> set hs) xs @ H"
    "set H = set xs \<inter> set hs" "distinct H" by blast
  let ?M = "filter (\<lambda>x. x \<notin> set hs) xs"
  have dM: "distinct ?M" using assms by simp
  consider (inM) "h \<in> set ?M" | (inH) "h \<notin> set ?M" "h \<in> set H" | (out) "h \<notin> set H" "h \<notin> set ?M"
    by blast
  then show ?case
  proof cases
    case inH
    then have hs: "h \<in> set hs" using H(2) by auto
    have "foldl pushToStart xs (hs @ [h]) = ?M @ (remove1 h H @ [h])"
      using inH H(1) by (auto simp: pushToStart_def remove1_append)
    moreover have "filter (\<lambda>x. x \<notin> set (hs @ [h])) xs = ?M"
      using hs by (intro filter_cong) auto
    moreover have "set (remove1 h H @ [h]) = set xs \<inter> set (hs @ [h])"
      using inH H(2,3) hs by auto
    moreover have "distinct (remove1 h H @ [h])" using H(3) by simp
    ultimately show ?thesis by metis
  next
    case inM
    then have nh: "h \<notin> set H" using H(2) by auto
    have "foldl pushToStart xs (hs @ [h]) = remove1 h ?M @ (H @ [h])"
      using inM H(1) by (simp add: pushToStart_def remove1_append)
    moreover have "remove1 h ?M = filter (\<lambda>x. x \<notin> set (hs @ [h])) xs"
      using dM by (simp add: distinct_remove1_removeAll removeAll_filter_not_eq) (metis)
    moreover have "set (H @ [h]) = set xs \<inter> set (hs @ [h])"
      using inM H(2) by auto
    moreover have "distinct (H @ [h])" using nh H(3) by simp
    ultimately show ?thesis by metis
  next
    case out
    then have nx: "h \<notin> set xs" using H(2) by auto
    have "foldl pushToStart xs (hs @ [h]) = ?M @ H"
      using out H(1) by (auto simp: pushToStart_def)
    moreover have "filter (\<lambda>x. x \<notin> set (hs @ [h])) xs = ?M"
      using nx by (intro filter_cong) auto
    moreover have "set H = set xs \<inter> set (hs @ [h])"
      using nx H(2) by auto
    ultimately show ?thesis using H(3) by metis
  qed
qed

lemma distinct_foldl_pushToStart: "distinct xs \<Longrightarrow> distinct (foldl pushToStart xs hs)"
  using mset_foldl_pushToStart [of xs hs] by (metis mset_eq_imp_distinct_iff)

lemma pushToEnd_decomp:
  assumes "distinct xs"
  shows "\<exists>L. foldl pushToEnd xs ls = L @ filter (\<lambda>x. x \<notin> set ls) xs
             \<and> set L = set xs \<inter> set ls \<and> distinct L"
proof (induction ls rule: rev_induct)
  case Nil
  show ?case by simp
next
  case (snoc l ls)
  then obtain L where L: "foldl pushToEnd xs ls = L @ filter (\<lambda>x. x \<notin> set ls) xs"
    "set L = set xs \<inter> set ls" "distinct L" by blast
  let ?M = "filter (\<lambda>x. x \<notin> set ls) xs"
  have dM: "distinct ?M" using assms by simp
  consider (inL) "l \<in> set L" | (inM) "l \<notin> set L" "l \<in> set ?M" | (out) "l \<notin> set L" "l \<notin> set ?M"
    by blast
  then show ?case
  proof cases
    case inL
    then have ls: "l \<in> set ls" using L(2) by auto
    have "foldl pushToEnd xs (ls @ [l]) = (l # remove1 l L) @ ?M"
      using inL L(1) by (simp add: pushToEnd_def remove1_append)
    moreover have "filter (\<lambda>x. x \<notin> set (ls @ [l])) xs = ?M"
      using ls by (intro filter_cong) auto
    moreover have "set (l # remove1 l L) = set xs \<inter> set (ls @ [l])"
      using inL L(2,3) ls by auto
    moreover have "distinct (l # remove1 l L)" using L(3) by simp
    ultimately show ?thesis by metis
  next
    case inM
    have "foldl pushToEnd xs (ls @ [l]) = (l # L) @ remove1 l ?M"
      using inM L(1) by (simp add: pushToEnd_def remove1_append)
    moreover have "remove1 l ?M = filter (\<lambda>x. x \<notin> set (ls @ [l])) xs"
      using dM by (simp add: distinct_remove1_removeAll removeAll_filter_not_eq) (metis)
    moreover have "set (l # L) = set xs \<inter> set (ls @ [l])"
      using inM L(2) by auto
    moreover have "distinct (l # L)" using inM L(3) by simp
    ultimately show ?thesis by metis
  next
    case out
    then have nx: "l \<notin> set xs" using L(2) by auto
    have "foldl pushToEnd xs (ls @ [l]) = L @ ?M"
      using out L(1) by (auto simp: pushToEnd_def)
    moreover have "filter (\<lambda>x. x \<notin> set (ls @ [l])) xs = ?M"
      using nx by (intro filter_cong) auto
    moreover have "set L = set xs \<inter> set (ls @ [l])"
      using nx L(2) by auto
    ultimately show ?thesis using L(3) by metis
  qed
qed

text \<open>The order of one side: the low-priority indexes, the others in their own order, the high ones.\<close>

lemma priority_order:
  assumes "distinct base"
  shows "\<exists>L H. foldl pushToEnd (foldl pushToStart base hs) ls
               = L @ filter (\<lambda>x. x \<notin> set hs \<and> x \<notin> set ls) base @ H
             \<and> set L = set base \<inter> set ls \<and> set H = set base \<inter> set hs - set ls"
proof -
  from pushToStart_decomp [OF assms, of hs] obtain H where
    H: "foldl pushToStart base hs = filter (\<lambda>x. x \<notin> set hs) base @ H" "set H = set base \<inter> set hs"
    by blast
  have "distinct (foldl pushToStart base hs)" using assms by (rule distinct_foldl_pushToStart)
  from pushToEnd_decomp [OF this, of ls] obtain L where
    L: "foldl pushToEnd (foldl pushToStart base hs) ls
          = L @ filter (\<lambda>x. x \<notin> set ls) (foldl pushToStart base hs)"
       "set L = set (foldl pushToStart base hs) \<inter> set ls" by blast
  have sb: "set (foldl pushToStart base hs) = set base"
    using mset_foldl_pushToStart [of base hs] by (metis set_mset_mset)
  have "foldl pushToEnd (foldl pushToStart base hs) ls
          = L @ filter (\<lambda>x. x \<notin> set hs \<and> x \<notin> set ls) base @ filter (\<lambda>x. x \<notin> set ls) H"
    using L(1) H(1) by (simp add: conj_commute)
  moreover have "set (filter (\<lambda>x. x \<notin> set ls) H) = set base \<inter> set hs - set ls"
    using H(2) by auto
  ultimately show ?thesis using L(2) sb by metis
qed

lemma upIndexes_fold:
  "upIndexes index low high
     = foldl pushToEnd (foldl pushToStart (range_js index (- 1)) (priorityList high)) (priorityList low)"
  by (simp add: upIndexes_def priorityList_def Let_def split: option.splits)

lemma downIndexes_fold:
  "downIndexes index n low high
     = foldl pushToEnd (foldl pushToStart (range_js (index + 1) (int n)) (priorityList high)) (priorityList low)"
  by (simp add: downIndexes_def priorityList_def Let_def split: option.splits)

lemma resizeUp_nth_other:
  "\<forall>i \<in> set is. nat i \<noteq> k \<Longrightarrow> fst (resizeUp vs sizes is d a) ! k = vs ! k"
  by (induction "is" arbitrary: vs d a) (simp_all add: Let_def)

lemma resizeDown_nth_other:
  "\<forall>i \<in> set is. nat i \<noteq> k \<Longrightarrow> resizeDown vs sizes is d ! k = vs ! k"
  by (induction "is" arbitrary: vs d) (simp_all add: Let_def)

lemma resizeUp_head:
  assumes "nat i < length vs" "\<forall>j \<in> set is. nat j \<noteq> nat i"
  shows "fst (resizeUp vs sizes (i # is) d a) ! nat i
           = (vs ! nat i)\<lparr>size_item := clampView (view (vs ! nat i)) (num_at sizes i + d)\<rparr>"
  using assms by (simp add: Let_def resizeUp_nth_other)

lemma distinct_upIndexes: "distinct (upIndexes index low high)"
  using mset_upIndexes [of index low high] distinct_range_js [of index "- 1"]
  by (metis mset_eq_imp_distinct_iff)

lemma resize_views:
  assumes "0 \<le> index" "index < int (length (views st))"
  shows "resize st index delta sizesArg low high =
           Inr (st\<lparr>views :=
              resizeDown
                (fst (resizeUp (views st) (baselineSizes st sizesArg) (upIndexes index low high)
                   (tentativeDelta (views st) (baselineSizes st sizesArg) (upIndexes index low high)
                      (downIndexes index (length (views st)) low high) delta) 0))
                (baselineSizes st sizesArg) (downIndexes index (length (views st)) low high)
                (snd (resizeUp (views st) (baselineSizes st sizesArg) (upIndexes index low high)
                   (tentativeDelta (views st) (baselineSizes st sizesArg) (upIndexes index low high)
                      (downIndexes index (length (views st)) low high) delta) 0))\<rparr>)"
  using resize_in_range [OF assms, of delta sizesArg low high]
  by (simp add: Let_def baselineSizes_def)

lemma first_up_index_size:
  assumes idx: "0 \<le> index" "index < int (length (views st))"
    and up: "upIndexes index low high = i # rest"
    and r: "resize st index delta sizesArg low high = Inr st'"
  shows "size_item (views st' ! nat i)
           = clampView (view (views st ! nat i))
               (num_at (baselineSizes st sizesArg) i
                + tentativeDelta (views st) (baselineSizes st sizesArg) (upIndexes index low high)
                    (downIndexes index (length (views st)) low high) delta)"
proof -
  have su: "set (upIndexes index low high) = {0..index}" using idx(1) by (rule set_upIndexes)
  have sd: "set (downIndexes index (length (views st)) low high) = {index + 1..<int (length (views st))}"
    using idx(2) by (intro set_downIndexes) simp
  have i: "0 \<le> i" "i \<le> index" using su up by auto
  have a: "nat i < length (views st)" using i idx by simp
  have b: "\<forall>j \<in> set rest. nat j \<noteq> nat i"
  proof
    fix j assume j: "j \<in> set rest"
    then have "j \<noteq> i" using distinct_upIndexes [of index low high] up by auto
    moreover have "0 \<le> j" using j su up by auto
    ultimately show "nat j \<noteq> nat i" using i by simp
  qed
  have c: "\<forall>j \<in> set (downIndexes index (length (views st)) low high). nat j \<noteq> nat i"
    using sd i by auto
  have "views st' = resizeDown
                (fst (resizeUp (views st) (baselineSizes st sizesArg) (i # rest)
                   (tentativeDelta (views st) (baselineSizes st sizesArg) (upIndexes index low high)
                      (downIndexes index (length (views st)) low high) delta) 0))
                (baselineSizes st sizesArg) (downIndexes index (length (views st)) low high)
                (snd (resizeUp (views st) (baselineSizes st sizesArg) (i # rest)
                   (tentativeDelta (views st) (baselineSizes st sizesArg) (upIndexes index low high)
                      (downIndexes index (length (views st)) low high) delta) 0))"
    using r resize_views [OF idx, of delta sizesArg low high] up [symmetric]
    by (auto simp del: resizeUp.simps)
  then show ?thesis
    by (simp only: resizeDown_nth_other [OF c] resizeUp_head [OF a b]) simp
qed

subsection \<open>Sums of numbers\<close>

lemma jsadd_assoc: "(a + b) + c = a + (b + (c::jsnum))"
  by (cases a; cases b; cases c) (simp_all add: plus_jsnum_def)

lemma jsadd_commute: "a + b = b + (a::jsnum)"
  by (cases a; cases b) (simp_all add: plus_jsnum_def)

lemma jsadd_zero [simp]: "0 + a = (a::jsnum)" "a + 0 = a"
  by (cases a; simp add: plus_jsnum_def zero_jsnum_def)+

lemma jsdiff_conv: "a - b = a + (- (b::jsnum))"
  by (simp add: minus_jsnum_def plus_jsnum_def uminus_jsnum_def)

lemma jsadd_left_commute: "a + (b + c) = b + (a + (c::jsnum))"
  by (metis jsadd_assoc jsadd_commute)

lemma foldl_delta:
  "foldl (\<lambda>acc i. acc + f i - g i) z xs = z + sumList (map (\<lambda>i. f i - g i) xs)"
proof (induction xs arbitrary: z)
  case Nil
  show ?case by (simp add: sumList_def)
next
  case (Cons x xs)
  have "foldl (\<lambda>acc i. acc + f i - g i) z (x # xs) = (z + f x - g x) + sumList (map (\<lambda>i. f i - g i) xs)"
    using Cons by simp
  also have "\<dots> = z + ((f x - g x) + sumList (map (\<lambda>i. f i - g i) xs))"
    by (simp add: jsdiff_conv jsadd_assoc)
  finally show ?case by (simp add: sumList_def)
qed

lemma sumList_Cons [simp]: "sumList (x # xs) = x + sumList xs"
  by (simp add: sumList_def)

lemma sumList_Nil [simp]: "sumList [] = 0"
  by (simp add: sumList_def)

lemma sumList_remove1:
  "x \<in> set ys \<Longrightarrow> sumList (map h ys) = h x + sumList (map h (remove1 x ys))"
  by (induction ys) (auto simp: jsadd_left_commute)

lemma sumList_mset:
  "mset xs = mset ys \<Longrightarrow> sumList (map h xs) = sumList (map h ys)"
proof (induction xs arbitrary: ys)
  case Nil
  then show ?case by simp
next
  case (Cons x xs)
  then have x: "x \<in> set ys" by (metis list.set_intros(1) mset_eq_setD)
  have "mset xs = mset (remove1 x ys)" using Cons.prems by (metis mset_remove1 add_mset_remove_trivial mset.simps(2))
  then have "sumList (map h xs) = sumList (map h (remove1 x ys))" by (rule Cons.IH)
  then show ?case using sumList_remove1 [OF x, of h] by simp
qed

lemma distinct_map_int: "distinct xs \<Longrightarrow> distinct (map int xs)"
  by (simp add: distinct_map inj_on_def)

lemma set_int_upt:
  assumes "0 \<le> index"
  shows "set (map int [0..<nat index + 1]) = {0..index}"
proof -
  have "int ` {0..<nat index + 1} = {0..index}"
  proof (intro set_eqI iffI)
    fix x assume "x \<in> int ` {0..<nat index + 1}"
    then show "x \<in> {0..index}" using assms by auto
  next
    fix x assume "x \<in> {0..index}"
    then have "nat x \<in> {0..<nat index + 1}" and "x = int (nat x)" by auto
    then show "x \<in> int ` {0..<nat index + 1}" by (metis image_eqI)
  qed
  then show ?thesis by (simp only: set_map set_upt)
qed

lemma set_int_upt_down:
  assumes "0 \<le> index"
  shows "set (map int [nat index + 1..<n]) = {index + 1..<int n}"
proof -
  have "int ` {nat index + 1..<n} = {index + 1..<int n}"
  proof (intro set_eqI iffI)
    fix x assume "x \<in> int ` {nat index + 1..<n}"
    then show "x \<in> {index + 1..<int n}" using assms by auto
  next
    fix x assume "x \<in> {index + 1..<int n}"
    then have "nat x \<in> {nat index + 1..<n}" and "x = int (nat x)" using assms by auto
    then show "x \<in> int ` {nat index + 1..<n}" by (metis image_eqI)
  qed
  then show ?thesis by (simp only: set_map set_upt)
qed

lemma mset_up_spec:
  assumes "0 \<le> index"
  shows "mset (upIndexes index low high) = mset (map int [0..<nat index + 1])"
proof -
  have "set (range_js index (- 1)) = set (map int [0..<nat index + 1])"
    using assms by (simp only: set_range_js_up set_int_upt)
  moreover have "distinct (map int [0..<nat index + 1])" by (rule distinct_map_int [OF distinct_upt])
  ultimately have "mset (range_js index (- 1)) = mset (map int [0..<nat index + 1])"
    using distinct_range_js [of index "- 1"] by (simp only: set_eq_iff_mset_eq_distinct)
  then show ?thesis by (simp add: mset_upIndexes)
qed

lemma mset_down_spec:
  assumes "0 \<le> index" "index < int n"
  shows "mset (downIndexes index n low high) = mset (map int [nat index + 1..<n])"
proof -
  have "index + 1 \<le> int n" using assms by simp
  then have "set (range_js (index + 1) (int n)) = set (map int [nat index + 1..<n])"
    using assms by (simp only: set_range_js_down set_int_upt_down)
  moreover have "distinct (map int [nat index + 1..<n])" by (rule distinct_map_int [OF distinct_upt])
  ultimately have "mset (range_js (index + 1) (int n)) = mset (map int [nat index + 1..<n])"
    using distinct_range_js [of "index + 1" "int n"] by (simp only: set_eq_iff_mset_eq_distinct)
  then show ?thesis by (simp add: mset_downIndexes)
qed

lemma sumList_up:
  assumes "0 \<le> index"
  shows "foldl (\<lambda>acc i. acc + f (nat i) - g i) 0 (upIndexes index low high)
           = sumList (map (\<lambda>i. f i - g (int i)) [0..<nat index + 1])"
proof -
  have "foldl (\<lambda>acc i. acc + f (nat i) - g i) 0 (upIndexes index low high)
          = sumList (map (\<lambda>i. f (nat i) - g i) (upIndexes index low high))"
    by (simp add: foldl_delta)
  also have "\<dots> = sumList (map (\<lambda>i. f (nat i) - g i) (map int [0..<nat index + 1]))"
    by (rule sumList_mset [OF mset_up_spec [OF assms]])
  finally show ?thesis by (simp add: comp_def del: upt_Suc)
qed

lemma sumList_down:
  assumes "0 \<le> index" "index < int n"
  shows "foldl (\<lambda>acc i. acc + f i - g (nat i)) 0 (downIndexes index n low high)
           = sumList (map (\<lambda>i. f (int i) - g i) [nat index + 1..<n])"
proof -
  have "foldl (\<lambda>acc i. acc + f i - g (nat i)) 0 (downIndexes index n low high)
          = sumList (map (\<lambda>i. f i - g (nat i)) (downIndexes index n low high))"
    by (simp add: foldl_delta)
  also have "\<dots> = sumList (map (\<lambda>i. f i - g (nat i)) (map int [nat index + 1..<n]))"
    by (rule sumList_mset [OF mset_down_spec [OF assms]])
  finally show ?thesis by (simp add: comp_def del: upt_Suc)
qed

lemma downIndexes_empty:
  assumes "0 \<le> index" "index < int n"
  shows "length (downIndexes index n low high) = 0 \<longleftrightarrow> index = int n - 1"
proof -
  have "length (downIndexes index n low high) = length (map int [nat index + 1..<n])"
    using mset_down_spec [OF assms, of low high] by (metis size_mset)
  then show ?thesis using assms by auto
qed

lemma snapMinimum_effective: "snapMinimum v = effectiveMinimum v"
  by (simp add: snapMinimum_def effectiveMinimum_def zero_jsnum_def split: option.splits)

lemma bounds_spec:
  assumes "0 \<le> index" "index < int (length vs)"
  shows "minDeltaUp vs sizes (upIndexes index low high) = specMinDeltaUp vs sizes index"
    and "maxDeltaUp vs sizes (upIndexes index low high) = specMaxDeltaUp vs sizes index"
    and "minDeltaDown vs sizes (downIndexes index (length vs) low high) = specMinDeltaDown vs sizes index"
    and "maxDeltaDown vs sizes (downIndexes index (length vs) low high) = specMaxDeltaDown vs sizes index"
proof -
  show "minDeltaUp vs sizes (upIndexes index low high) = specMinDeltaUp vs sizes index"
    unfolding minDeltaUp_def specMinDeltaUp_def snapMinimum_effective
    by (rule sumList_up [OF assms(1), of "\<lambda>i. effectiveMinimum (view (vs ! i))" "num_at sizes"])
  show "maxDeltaUp vs sizes (upIndexes index low high) = specMaxDeltaUp vs sizes index"
    unfolding maxDeltaUp_def specMaxDeltaUp_def
    by (rule sumList_up [OF assms(1), of "\<lambda>i. maximumSize (view (vs ! i))" "num_at sizes"])
  show "minDeltaDown vs sizes (downIndexes index (length vs) low high) = specMinDeltaDown vs sizes index"
    unfolding minDeltaDown_def specMinDeltaDown_def downIndexes_empty [OF assms]
    using sumList_down [OF assms, of "num_at sizes" "\<lambda>i. maximumSize (view (vs ! i))" low high]
    by simp
  show "maxDeltaDown vs sizes (downIndexes index (length vs) low high) = specMaxDeltaDown vs sizes index"
    unfolding maxDeltaDown_def specMaxDeltaDown_def downIndexes_empty [OF assms] snapMinimum_effective
    using sumList_down [OF assms, of "num_at sizes" "\<lambda>i. effectiveMinimum (view (vs ! i))" low high]
    by simp
qed

lemma tentativeDelta_spec:
  assumes "0 \<le> index" "index < int (length vs)"
  shows "tentativeDelta vs sizes (upIndexes index low high) (downIndexes index (length vs) low high) delta
           = specDelta vs sizes index delta"
  by (simp only: tentativeDelta_def specDelta_def Let_def bounds_spec [OF assms])

subsection \<open>Absorbing a delta within bounds\<close>

lemmas jsnum_defs = plus_jsnum_def minus_jsnum_def uminus_jsnum_def zero_jsnum_def
  jsle_def jsge_def jsgt_def Math_max_def Math_min_def clamp_def

lemma inBoundsE:
  assumes "inBounds item"
  obtains a s where "minimumSize (view item) = Fin a" "size_item item = Fin s" "a \<le> s"
    "maximumSize (view item) = PInf \<or> (\<exists>b. maximumSize (view item) = Fin b \<and> s \<le> b)"
    "snapSize (view item) = None"
proof -
  from assms obtain a s where 1: "minimumSize (view item) = Fin a" "size_item item = Fin s"
    by (auto simp: inBounds_def split: jsnum.splits)
  with assms have 2: "a \<le> s" "jsle (Fin s) (maximumSize (view item))" "snapSize (view item) = None"
    by (auto simp: inBounds_def)
  from 2(2) have "maximumSize (view item) = PInf \<or> (\<exists>b. maximumSize (view item) = Fin b \<and> s \<le> b)"
    by (cases "maximumSize (view item)") (auto simp: jsnum_defs)
  with 1 2 that show thesis by blast
qed


lemma upperNonneg_add: "upperNonneg x \<Longrightarrow> upperNonneg y \<Longrightarrow> upperNonneg (x + y)"
  by (auto simp: upperNonneg_def jsnum_defs)

lemma growRoom_Cons [simp]:
  "growRoom (item # items) = (maximumSize (view item) - size_item item) + growRoom items"
  by (simp add: growRoom_def)

lemma shrinkRoom_Cons [simp]:
  "shrinkRoom (item # items) = (minimumSize (view item) - size_item item) + shrinkRoom items"
  by (simp add: shrinkRoom_def)

lemma growRoom_Nil [simp]: "growRoom [] = Fin 0"
  by (simp add: growRoom_def zero_jsnum_def)

lemma shrinkRoom_Nil [simp]: "shrinkRoom [] = Fin 0"
  by (simp add: shrinkRoom_def zero_jsnum_def)

lemma growRoom_upper: "list_all inBounds xs \<Longrightarrow> upperNonneg (growRoom xs)"
proof (induction xs)
  case Nil
  show ?case by (simp add: upperNonneg_def)
next
  case (Cons item items)
  then have "inBounds item" and ih: "upperNonneg (growRoom items)" by simp_all
  then have "upperNonneg (maximumSize (view item) - size_item item)"
    by (elim inBoundsE) (auto simp: upperNonneg_def jsnum_defs)
  with ih show ?case by (simp add: upperNonneg_add)
qed

lemma shrinkRoom_fin: "list_all inBounds xs \<Longrightarrow> \<exists>r. shrinkRoom xs = Fin r \<and> r \<le> 0"
proof (induction xs)
  case Nil
  show ?case by simp
next
  case (Cons item items)
  then have "inBounds item" and "\<exists>r. shrinkRoom items = Fin r \<and> r \<le> 0" by simp_all
  then show ?case
    by (elim inBoundsE) (auto simp: jsnum_defs)
qed

lemma sumSizes_conv: "sumSizes xs = sumList (map size_item xs)"
proof -
  have "foldl (\<lambda>r i. r + size_item i) z xs = z + sumList (map size_item xs)" for z
    by (induction xs arbitrary: z) (simp_all add: jsadd_assoc)
  then show ?thesis by (simp add: sumSizes_def)
qed

lemma sumSizes_Cons [simp]: "sumSizes (item # items) = size_item item + sumSizes items"
  by (simp add: sumSizes_conv)

lemma sumSizes_Nil [simp]: "sumSizes [] = Fin 0"
  by (simp add: sumSizes_conv zero_jsnum_def)

lemma sumSizes_fin: "list_all inBounds xs \<Longrightarrow> \<exists>r. sumSizes xs = Fin r"
proof (induction xs)
  case Nil
  show ?case by simp
next
  case (Cons item items)
  then have "inBounds item" and "\<exists>r. sumSizes items = Fin r" by simp_all
  then show ?case by (elim inBoundsE) (auto simp: jsnum_defs)
qed

lemma clampView_inBounds [simp]:
  "inBounds item \<Longrightarrow> clampView (view item) (size_item item) = size_item item"
  by (elim inBoundsE) (auto simp: clampView_def jsnum_defs)

lemma absorb_zero: "list_all inBounds xs \<Longrightarrow> absorb xs (Fin 0) = xs"
proof (induction xs)
  case Nil
  show ?case by simp
next
  case (Cons item items)
  then have ib: "inBounds item" and ih: "absorb items (Fin 0) = items" by simp_all
  from ib have "size_item item + Fin 0 = size_item item" "size_item item - size_item item = Fin 0"
    by (elim inBoundsE; simp add: jsnum_defs)+
  with ib ih show ?case by (simp add: Let_def jsnum_defs)
qed

lemma absorb_step:
  assumes ib: "inBounds item" and ibs: "list_all inBounds items"
    and lo: "jsle (shrinkRoom (item # items)) (Fin d)" and hi: "jsle (Fin d) (growRoom (item # items))"
  obtains s s' where "size_item item = Fin s"
    "clampView (view item) (size_item item + Fin d) = Fin s'"
    "inBounds (item\<lparr>size_item := Fin s'\<rparr>)"
    "jsle (shrinkRoom items) (Fin (d - (s' - s)))" "jsle (Fin (d - (s' - s))) (growRoom items)"
proof -
  from ib obtain a s where it: "minimumSize (view item) = Fin a" "size_item item = Fin s" "a \<le> s"
    "maximumSize (view item) = PInf \<or> (\<exists>b. maximumSize (view item) = Fin b \<and> s \<le> b)"
    "snapSize (view item) = None" by (rule inBoundsE)
  from shrinkRoom_fin [OF ibs] obtain r where r: "shrinkRoom items = Fin r" "r \<le> 0" by blast
  from growRoom_upper [OF ibs] have g: "growRoom items = PInf \<or> (\<exists>g. growRoom items = Fin g \<and> 0 \<le> g)"
    by (simp add: upperNonneg_def)
  from lo it r have lo': "a - s + r \<le> d" by (simp add: jsnum_defs)
  from it(4) show thesis
  proof
    assume m: "maximumSize (view item) = PInf"
    let ?s' = "max (s + d) a"
    have 1: "clampView (view item) (size_item item + Fin d) = Fin ?s'"
      using it m by (simp add: clampView_def jsnum_defs max_def)
    have 2: "inBounds (item\<lparr>size_item := Fin ?s'\<rparr>)"
      using it m by (simp add: inBounds_def jsnum_defs)
    have 3: "jsle (shrinkRoom items) (Fin (d - (?s' - s)))"
      using r lo' by (simp add: jsnum_defs max_def)
    have 4: "jsle (Fin (d - (?s' - s))) (growRoom items)"
      using g by (auto simp: jsnum_defs max_def)
    from that [OF it(2) 1 2 3 4] show thesis .
  next
    assume "\<exists>b. maximumSize (view item) = Fin b \<and> s \<le> b"
    then obtain b where m: "maximumSize (view item) = Fin b" "s \<le> b" by blast
    let ?s' = "min b (max (s + d) a)"
    have 1: "clampView (view item) (size_item item + Fin d) = Fin ?s'"
      using it m by (simp add: clampView_def jsnum_defs max_def min_def)
    have 2: "inBounds (item\<lparr>size_item := Fin ?s'\<rparr>)"
      using it m by (simp add: inBounds_def jsnum_defs)
    have 3: "jsle (shrinkRoom items) (Fin (d - (?s' - s)))"
      using r lo' m it by (simp add: jsnum_defs max_def min_def)
    have 4: "jsle (Fin (d - (?s' - s))) (growRoom items)"
      using g hi it m by (auto simp: jsnum_defs max_def min_def)
    from that [OF it(2) 1 2 3 4] show thesis .
  qed
qed

lemma absorb_sum:
  assumes "list_all inBounds xs" "jsle (shrinkRoom xs) (Fin d)" "jsle (Fin d) (growRoom xs)"
  shows "list_all inBounds (absorb xs (Fin d)) \<and> map view (absorb xs (Fin d)) = map view xs
         \<and> sumSizes (absorb xs (Fin d)) = sumSizes xs + Fin d"
  using assms
proof (induction xs arbitrary: d)
  case Nil
  then show ?case by (simp add: jsnum_defs)
next
  case (Cons item items)
  then have ib: "inBounds item" and ibs: "list_all inBounds items" by simp_all
  from absorb_step [OF ib ibs Cons.prems(2,3)] obtain s s' where st: "size_item item = Fin s"
    "clampView (view item) (size_item item + Fin d) = Fin s'"
    "inBounds (item\<lparr>size_item := Fin s'\<rparr>)"
    "jsle (shrinkRoom items) (Fin (d - (s' - s)))" "jsle (Fin (d - (s' - s))) (growRoom items)"
    by blast
  from Cons.IH [OF ibs st(4,5)] have ih: "list_all inBounds (absorb items (Fin (d - (s' - s))))"
    "map view (absorb items (Fin (d - (s' - s)))) = map view items"
    "sumSizes (absorb items (Fin (d - (s' - s)))) = sumSizes items + Fin (d - (s' - s))" by simp_all
  from sumSizes_fin [OF ibs] obtain r where r: "sumSizes items = Fin r" by blast
  have eq: "absorb (item # items) (Fin d) = item\<lparr>size_item := Fin s'\<rparr> # absorb items (Fin (d - (s' - s)))"
    using st(1,2) by (simp add: Let_def jsnum_defs) (simp add: algebra_simps)
  show ?case unfolding eq using st(1,3) ih r by (simp add: jsnum_defs)
qed

lemma emptySpaceLoop_absorb: "list_all inBounds xs \<Longrightarrow> emptySpaceLoop xs e = absorb xs e"
proof (induction xs arbitrary: e)
  case Nil
  show ?case by simp
next
  case (Cons item items)
  then have ibs: "list_all inBounds (item # items)" and ih: "\<And>e. emptySpaceLoop items e = absorb items e"
    by simp_all
  show ?case
  proof (cases "e = 0")
    case True
    then show ?thesis using absorb_zero [OF ibs] by (simp add: zero_jsnum_def)
  next
    case False
    then show ?thesis using ih by (simp add: Let_def)
  qed
qed

lemma sumList_append [simp]: "sumList (xs @ ys) = sumList xs + sumList ys"
  by (induction xs) (simp_all add: jsadd_assoc)

lemma sumList_rev [simp]: "sumList (rev xs) = sumList xs"
  by (induction xs) (simp_all add: jsadd_commute)

lemma sumSizes_rev [simp]: "sumSizes (rev xs) = sumSizes xs"
  by (simp add: sumSizes_conv rev_map [symmetric])

lemma growRoom_rev [simp]: "growRoom (rev xs) = growRoom xs"
  by (simp add: growRoom_def rev_map [symmetric])

lemma shrinkRoom_rev [simp]: "shrinkRoom (rev xs) = shrinkRoom xs"
  by (simp add: shrinkRoom_def rev_map [symmetric])

lemma minimumSize_sv_conv:
  "minimumSize_sv st = sumList (map (\<lambda>item. minimumSize (view item)) (views st))"
proof -
  have *: "foldl (\<lambda>r item. r + minimumSize (view item)) z xs
          = z + sumList (map (\<lambda>item. minimumSize (view item)) xs)" for z xs
    by (induction xs arbitrary: z) (simp_all add: jsadd_assoc)
  show ?thesis by (simp add: minimumSize_sv_def *)
qed

lemma maximumSize_sv_conv:
  "views st \<noteq> [] \<Longrightarrow> maximumSize_sv st = sumList (map (\<lambda>item. maximumSize (view item)) (views st))"
proof -
  have *: "foldl (\<lambda>r item. r + maximumSize (view item)) z xs
          = z + sumList (map (\<lambda>item. maximumSize (view item)) xs)" for z xs
    by (induction xs arbitrary: z) (simp_all add: jsadd_assoc)
  assume "views st \<noteq> []"
  then show ?thesis by (simp add: maximumSize_sv_def *)
qed

text \<open>Room and sizes add up to the bounds.\<close>

lemma shrinkRoom_plus_sizes:
  "list_all inBounds xs \<Longrightarrow>
     \<exists>r s. shrinkRoom xs = Fin r \<and> sumSizes xs = Fin s
          \<and> sumList (map (\<lambda>item. minimumSize (view item)) xs) = Fin (r + s)"
proof (induction xs)
  case Nil
  show ?case by (simp add: zero_jsnum_def)
next
  case (Cons item items)
  then have "inBounds item" and
    "\<exists>r s. shrinkRoom items = Fin r \<and> sumSizes items = Fin s
          \<and> sumList (map (\<lambda>item. minimumSize (view item)) items) = Fin (r + s)" by simp_all
  then show ?case by (elim inBoundsE) (auto simp: jsnum_defs)
qed

lemma growRoom_plus_sizes:
  "list_all inBounds xs \<Longrightarrow>
     \<exists>s. sumSizes xs = Fin s
        \<and> (growRoom xs = PInf \<and> sumList (map (\<lambda>item. maximumSize (view item)) xs) = PInf
           \<or> (\<exists>g. growRoom xs = Fin g \<and> sumList (map (\<lambda>item. maximumSize (view item)) xs) = Fin (g + s)))"
proof (induction xs)
  case Nil
  show ?case by (simp add: zero_jsnum_def)
next
  case (Cons item items)
  then have "inBounds item" and
    "\<exists>s. sumSizes items = Fin s
        \<and> (growRoom items = PInf \<and> sumList (map (\<lambda>item. maximumSize (view item)) items) = PInf
           \<or> (\<exists>g. growRoom items = Fin g \<and> sumList (map (\<lambda>item. maximumSize (view item)) items) = Fin (g + s)))"
    by simp_all
  then show ?case by (elim inBoundsE) (auto simp: jsnum_defs)
qed

text \<open>A total between the sum of the minimums and the sum of the maximums can be reached.\<close>

lemma room_for_total:
  assumes ib: "list_all inBounds xs"
    and lo: "jsle (sumList (map (\<lambda>item. minimumSize (view item)) xs)) (Fin t)"
    and hi: "jsle (Fin t) (sumList (map (\<lambda>item. maximumSize (view item)) xs))"
  shows "\<exists>s. sumSizes xs = Fin s \<and> jsle (shrinkRoom xs) (Fin (t - s)) \<and> jsle (Fin (t - s)) (growRoom xs)"
proof -
  from shrinkRoom_plus_sizes [OF ib] obtain r s where 1: "shrinkRoom xs = Fin r" "sumSizes xs = Fin s"
    "sumList (map (\<lambda>item. minimumSize (view item)) xs) = Fin (r + s)" by blast
  from growRoom_plus_sizes [OF ib] 1(2) have 2:
    "growRoom xs = PInf \<or> (\<exists>g. growRoom xs = Fin g \<and> sumList (map (\<lambda>item. maximumSize (view item)) xs) = Fin (g + s))"
    by auto
  have "jsle (shrinkRoom xs) (Fin (t - s))" using lo 1 by (simp add: jsnum_defs)
  moreover have "jsle (Fin (t - s)) (growRoom xs)" using hi 2 by (auto simp: jsnum_defs)
  ultimately show ?thesis using 1(2) by simp
qed

text \<open>\<open>distributeEmptySpace\<close> on items within their bounds reaches a feasible container size.\<close>

lemma distributeEmptySpace_sum:
  assumes ib: "list_all inBounds (views st)" and sz: "size_sv st = Some (Fin t)"
    and lo: "jsle (sumList (map (\<lambda>item. minimumSize (view item)) (views st))) (Fin t)"
    and hi: "jsle (Fin t) (sumList (map (\<lambda>item. maximumSize (view item)) (views st)))"
  shows "sumSizes (views (distributeEmptySpace st)) = Fin t
         \<and> list_all inBounds (views (distributeEmptySpace st))
         \<and> map view (views (distributeEmptySpace st)) = map view (views st)"
proof -
  from room_for_total [OF ib lo hi] obtain s where s: "sumSizes (views st) = Fin s"
    "jsle (shrinkRoom (views st)) (Fin (t - s))" "jsle (Fin (t - s)) (growRoom (views st))" by blast
  have ibr: "list_all inBounds (rev (views st))" using ib by simp
  have e: "toNumber (size_sv st) - sumSizes (views st) = Fin (t - s)"
    using sz s(1) by (simp add: toNumber_def jsnum_defs)
  have v: "views (distributeEmptySpace st) = rev (absorb (rev (views st)) (Fin (t - s)))"
    by (simp add: distributeEmptySpace_def Let_def e emptySpaceLoop_absorb [OF ibr])
  from absorb_sum [OF ibr, of "t - s"] s have a: "list_all inBounds (absorb (rev (views st)) (Fin (t - s)))"
    "map view (absorb (rev (views st)) (Fin (t - s))) = map view (rev (views st))"
    "sumSizes (absorb (rev (views st)) (Fin (t - s))) = sumSizes (rev (views st)) + Fin (t - s)"
    by simp_all
  have "sumSizes (views (distributeEmptySpace st)) = Fin t"
    unfolding v using a(3) s(1) by (simp add: jsnum_defs)
  moreover have "list_all inBounds (views (distributeEmptySpace st))"
    unfolding v using a(1) by simp
  moreover have "map view (views (distributeEmptySpace st)) = map view (views st)"
    unfolding v using a(2) by (simp add: rev_map [symmetric] rev_swap)
  ultimately show ?thesis by simp
qed

lemma proportional_inBounds:
  assumes bv: "boundedView (view item)" and p: "isFin p"
  shows "inBounds (item\<lparr>size_item := clampView (view item) (Math_round (jsmul p (Fin t)))\<rparr>)"
proof -
  from bv obtain a b where v: "minimumSize (view item) = Fin a" "maximumSize (view item) = Fin b"
    "a \<le> b" "snapSize (view item) = None"
    by (auto simp: boundedView_def split: jsnum.splits)
  from p obtain q where q: "p = Fin q" by (cases p) (auto simp: isFin_def)
  show ?thesis using v
    by (simp add: q inBounds_def clampView_def jsnum_defs)
qed

lemma layout_sum_aux:
  assumes ne: "views st \<noteq> []"
    and bv: "\<forall>item \<in> set (views st). boundedView (view item)"
    and ps: "proportions st = Some ps" "length (views st) \<le> length ps" "list_all isFin ps"
    and inv: "sashCountOk st"
    and lo: "jsle (minimumSize_sv st) (Fin t)" and hi: "jsle (Fin t) (maximumSize_sv st)"
  shows "\<exists>st'. layout st (Fin t) orthogonal = Inr st' \<and> sumSizes (views st') = Fin t
               \<and> list_all inBounds (views st')"
proof -
  define vs where "vs = map (\<lambda>i. let item = views st ! i
                               in item\<lparr>size_item :=
                                    clampView (view item) (Math_round (jsmul (num_at ps (int i)) (Fin t)))\<rparr>)
                       [0..<length (views st)]"
  define st1 where "st1 = st\<lparr>size_sv := Some (Fin t), orthogonalSize := Some orthogonal, views := vs\<rparr>"
  have l: "layout st (Fin t) orthogonal = layoutViews (distributeEmptySpace st1)"
    using ne ps(1) by (simp add: layout_def Let_def vs_def st1_def)
  have ib: "list_all inBounds vs"
  proof -
    have "inBounds (let item = views st ! i
                    in item\<lparr>size_item :=
                         clampView (view item) (Math_round (jsmul (num_at ps (int i)) (Fin t)))\<rparr>)"
      if "i < length (views st)" for i
    proof -
      have "boundedView (view (views st ! i))" using bv that by simp
      moreover have "isFin (num_at ps (int i))"
        using that ps(2,3) by (simp add: num_at_def list_all_length)
      ultimately show ?thesis by (simp add: Let_def proportional_inBounds)
    qed
    then show ?thesis by (simp add: vs_def list_all_iff)
  qed
  have mv: "map view vs = map view (views st)"
  proof -
    have "map view vs = map (\<lambda>i. view (views st ! i)) [0..<length (views st)]"
      by (simp add: vs_def Let_def comp_def)
    also have "\<dots> = map view (map (\<lambda>i. views st ! i) [0..<length (views st)])"
      by (simp add: comp_def)
    also have "\<dots> = map view (views st)" by (simp only: map_nth)
    finally show ?thesis .
  qed
  have mn: "map (\<lambda>item. minimumSize (view item)) vs = map (\<lambda>item. minimumSize (view item)) (views st)"
    using arg_cong [OF mv, of "map minimumSize"] by (simp add: comp_def)
  have mx: "map (\<lambda>item. maximumSize (view item)) vs = map (\<lambda>item. maximumSize (view item)) (views st)"
    using arg_cong [OF mv, of "map maximumSize"] by (simp add: comp_def)
  have a: "list_all inBounds (views st1)" "size_sv st1 = Some (Fin t)"
    using ib by (simp_all add: st1_def)
  have b: "jsle (sumList (map (\<lambda>item. minimumSize (view item)) (views st1))) (Fin t)"
    using lo by (simp add: st1_def mn minimumSize_sv_conv)
  have c: "jsle (Fin t) (sumList (map (\<lambda>item. maximumSize (view item)) (views st1)))"
    using hi ne by (simp add: st1_def mx maximumSize_sv_conv)
  from distributeEmptySpace_sum [OF a b c] have d:
    "sumSizes (views (distributeEmptySpace st1)) = Fin t"
    "list_all inBounds (views (distributeEmptySpace st1))"
    "map view (views (distributeEmptySpace st1)) = map view (views st1)" by simp_all
  have "shapeOf st1 = shapeOf st"
    by (simp add: shapeOf_def st1_def vs_def)
  then have "shapeOf (distributeEmptySpace st1) = shapeOf st"
    by simp
  then have "length (views (distributeEmptySpace st1)) - 1 \<le> length (sashes (distributeEmptySpace st1))"
    using inv by (simp add: shapeOf_def sashCountOk_iff)
  from layoutViews_ok [OF this] d l show ?thesis by simp
qed

subsection \<open>A sash with slack on both sides\<close>

lemma fitsBoundsE:
  assumes "fitsBounds item"
  obtains a s where "minimumSize (view item) = Fin a" "size_item item = Fin s" "0 \<le> a" "0 \<le> s"
    "snapSize (view item) = None \<longrightarrow> a \<le> s"
    "maximumSize (view item) = PInf \<or> (\<exists>b. maximumSize (view item) = Fin b \<and> s \<le> b)"
proof -
  from assms obtain a s where 1: "minimumSize (view item) = Fin a" "size_item item = Fin s"
    by (auto simp: fitsBounds_def split: jsnum.splits)
  with assms have 2: "0 \<le> a" "0 \<le> s" "snapSize (view item) = None \<longrightarrow> a \<le> s"
    "jsle (Fin s) (maximumSize (view item))"
    by (auto simp: fitsBounds_def)
  from 2(4) have "maximumSize (view item) = PInf \<or> (\<exists>b. maximumSize (view item) = Fin b \<and> s \<le> b)"
    by (cases "maximumSize (view item)") (auto simp: jsnum_defs)
  from that [OF 1 2(1,2,3) this] show thesis .
qed

lemma clampView_fits:
  assumes "fitsBounds item"
  shows "clampView (view item) (size_item item) = size_item item"
proof -
  from assms obtain a s where 1: "minimumSize (view item) = Fin a" "size_item item = Fin s"
    by (auto simp: fitsBounds_def split: jsnum.splits)
  with assms have 2: "0 \<le> a" "jsle (Fin s) (maximumSize (view item))"
    and 3: "a \<le> s \<or> s = 0 \<and> (case snapSize (view item) of
                              None \<Rightarrow> False
                            | Some q \<Rightarrow> jslt (Fin 0) (Math_min q (Fin a)))"
    by (auto simp: fitsBounds_def)
  from 2(2) have m: "maximumSize (view item) = PInf \<or> (\<exists>b. maximumSize (view item) = Fin b \<and> s \<le> b)"
    by (cases "maximumSize (view item)") (auto simp: jsnum_defs)
  show ?thesis
  proof (cases "a \<le> s")
    case True
    then show ?thesis using 1 m
      by (auto simp: clampView_def jsnum_defs split: option.splits)
  next
    case False
    with 3 obtain q where q: "s = 0" "snapSize (view item) = Some q" "jslt (Fin 0) (Math_min q (Fin a))"
      by (auto split: option.splits)
    from False q(1) have "\<not> jsge (Fin 0) (Fin a)" by (simp add: jsnum_defs)
    then show ?thesis using 1 q
      by (simp add: clampView_def Let_def zero_jsnum_def)
  qed
qed

lemma lowerNonpos_add: "lowerNonpos x \<Longrightarrow> lowerNonpos y \<Longrightarrow> lowerNonpos (x + y)"
  by (auto simp: lowerNonpos_def jsnum_defs)

lemma sumList_nonpos:
  "\<forall>x \<in> set xs. \<exists>r. f x = Fin r \<and> r \<le> 0 \<Longrightarrow> \<exists>r. sumList (map f xs) = Fin r \<and> r \<le> 0"
  by (induction xs) (auto simp: jsnum_defs)

lemma sumList_nonneg:
  "\<forall>x \<in> set xs. \<exists>r. f x = Fin r \<and> 0 \<le> r \<Longrightarrow> \<exists>r. sumList (map f xs) = Fin r \<and> 0 \<le> r"
  by (induction xs) (auto simp: jsnum_defs)

lemma sumList_upper:
  "\<forall>x \<in> set xs. upperNonneg (f x) \<Longrightarrow> upperNonneg (sumList (map f xs))"
  by (induction xs) (auto simp: upperNonneg_add, simp add: upperNonneg_def jsnum_defs)

lemma sumList_lower:
  "\<forall>x \<in> set xs. lowerNonpos (f x) \<Longrightarrow> lowerNonpos (sumList (map f xs))"
  by (induction xs) (auto simp: lowerNonpos_add, simp add: lowerNonpos_def jsnum_defs)

lemma range_js_up_Cons: "0 \<le> index \<Longrightarrow> range_js index (- 1) = index # range_js (index - 1) (- 1)"
proof -
  assume a: "0 \<le> index"
  then have n: "nat (index + 1) = Suc (nat index)" by simp
  have "map (\<lambda>k. index - int k) [0..<Suc (nat index)]
          = index # map (\<lambda>k. index - 1 - int k) [0..<nat index]"
    by (simp add: upt_conv_Cons map_Suc_upt [symmetric] del: upt_Suc)
  then show ?thesis using a by (simp add: range_js_def n del: upt_Suc)
qed

lemma range_js_down_Cons:
  "index + 1 < int n \<Longrightarrow> range_js (index + 1) (int n) = (index + 1) # range_js (index + 2) (int n)"
proof -
  assume a: "index + 1 < int n"
  then have n: "nat (int n - (index + 1)) = Suc (nat (int n - (index + 2)))" by simp
  have "map (\<lambda>k. index + 1 + int k) [0..<Suc (nat (int n - (index + 2)))]
          = (index + 1) # map (\<lambda>k. index + 2 + int k) [0..<nat (int n - (index + 2))]"
    by (simp add: upt_conv_Cons map_Suc_upt [symmetric] del: upt_Suc)
  then show ?thesis using a by (simp add: range_js_def n del: upt_Suc)
qed

lemma range_js_empty [simp]: "range_js a a = []"
  by (simp add: range_js_def)

lemma set_range_js_below: "0 \<le> index \<Longrightarrow> set (range_js (index - 1) (- 1)) \<subseteq> {0..<index}"
proof (cases "0 \<le> index - 1")
  case True
  then show ?thesis using set_range_js_up [of "index - 1"] by auto
next
  case False
  assume "0 \<le> index"
  with False have "index = 0" by simp
  then show ?thesis by (simp add: range_js_def)
qed

lemma set_range_js_above:
  "index + 1 < int n \<Longrightarrow> set (range_js (index + 2) (int n)) \<subseteq> {index + 2..<int n}"
  using set_range_js_down [of "index + 1" n] by (auto simp: add.commute)

lemma jsnum_idle [simp]: "Fin 0 - Fin 0 = Fin 0" "a + Fin 0 = a" "Fin s - Fin s = Fin 0"
  by (cases a; simp add: jsnum_defs)+

lemma resizeUp_idle:
  assumes "\<forall>i \<in> set is. 0 \<le> i \<and> nat i < length vs \<and> fitsBounds (vs ! nat i)
             \<and> num_at sizes i = size_item (vs ! nat i)"
  shows "resizeUp vs sizes is (Fin 0) a = (vs, a)"
  using assms
proof (induction "is" arbitrary: a)
  case Nil
  show ?case by simp
next
  case (Cons i "is")
  then have i: "nat i < length vs" "fitsBounds (vs ! nat i)" "num_at sizes i = size_item (vs ! nat i)"
    by simp_all
  from i(2) obtain s where s: "size_item (vs ! nat i) = Fin s" by (rule fitsBoundsE)
  have c: "clampView (view (vs ! nat i)) (num_at sizes i + Fin 0) = size_item (vs ! nat i)"
    using clampView_fits [OF i(2)] i(3) s by (simp add: jsnum_defs)
  have u: "vs[nat i := (vs ! nat i)\<lparr>size_item := size_item (vs ! nat i)\<rparr>] = vs"
    by (simp add: list_update_id)
  have c2: "clampView (view (vs ! nat i)) (num_at sizes i) = size_item (vs ! nat i)"
    using c by simp
  have vd: "size_item (vs ! nat i) - num_at sizes i = Fin 0" using s i(3) by simp
  have "resizeUp vs sizes (i # is) (Fin 0) a = resizeUp vs sizes is (Fin 0) a"
    by (simp only: resizeUp.simps Let_def c c2 vd u jsnum_idle)
  then show ?case using Cons by simp
qed

lemma resizeDown_idle:
  assumes "\<forall>i \<in> set is. 0 \<le> i \<and> nat i < length vs \<and> fitsBounds (vs ! nat i)
             \<and> num_at sizes i = size_item (vs ! nat i)"
  shows "resizeDown vs sizes is (Fin 0) = vs"
  using assms
proof (induction "is")
  case Nil
  show ?case by simp
next
  case (Cons i "is")
  then have i: "nat i < length vs" "fitsBounds (vs ! nat i)" "num_at sizes i = size_item (vs ! nat i)"
    by simp_all
  from i(2) obtain s where s: "size_item (vs ! nat i) = Fin s" by (rule fitsBoundsE)
  have c: "clampView (view (vs ! nat i)) (num_at sizes i - Fin 0) = size_item (vs ! nat i)"
    using clampView_fits [OF i(2)] i(3) s by (simp add: jsnum_defs)
  have u: "vs[nat i := (vs ! nat i)\<lparr>size_item := size_item (vs ! nat i)\<rparr>] = vs"
    by (simp add: list_update_id)
  have vd: "size_item (vs ! nat i) - num_at sizes i = Fin 0" using s i(3) by simp
  have "resizeDown vs sizes (i # is) (Fin 0) = resizeDown vs sizes is (Fin 0)"
    by (simp only: resizeDown.simps Let_def c vd u jsnum_idle)
  then show ?case using Cons by simp
qed

lemma num_at_sizes: "0 \<le> i \<Longrightarrow> nat i < length vs \<Longrightarrow> num_at (map size_item vs) i = size_item (vs ! nat i)"
  by (auto simp: num_at_def)

lemma length_shiftSizes [simp]: "length (shiftSizes vs k d) = length vs"
  by (simp add: shiftSizes_def Let_def)

lemma shiftSizes_nth_sash:
  "k < length vs \<Longrightarrow> shiftSizes vs k d ! k = (vs ! k)\<lparr>size_item := size_item (vs ! k) + Fin d\<rparr>"
  by (simp add: shiftSizes_def Let_def)

lemma shiftSizes_nth_next:
  "Suc k < length vs \<Longrightarrow>
     shiftSizes vs k d ! Suc k = (vs ! Suc k)\<lparr>size_item := size_item (vs ! Suc k) - Fin d\<rparr>"
  by (simp add: shiftSizes_def Let_def)

lemma shiftSizes_nth_other:
  "i \<noteq> k \<Longrightarrow> i \<noteq> Suc k \<Longrightarrow> shiftSizes vs k d ! i = vs ! i"
  by (simp add: shiftSizes_def Let_def)

lemma fold_bound_Cons:
  "foldl (\<lambda>acc i. acc + f i - g i) 0 (i # is) = (f i - g i) + sumList (map (\<lambda>i. f i - g i) is)"
  by (simp only: foldl_delta) simp

lemma Math_max_below:
  assumes "p \<le> d" "b = NInf \<or> (\<exists>y. b = Fin y \<and> y \<le> d)"
  shows "\<exists>m. Math_max (Fin p) b = Fin m \<and> m \<le> d"
  using assms(2)
proof
  assume "b = NInf"
  then show ?thesis using assms(1) by (simp add: jsnum_defs)
next
  assume "\<exists>y. b = Fin y \<and> y \<le> d"
  then obtain y where "b = Fin y" "y \<le> d" by blast
  then show ?thesis using assms(1) by (simp add: jsnum_defs)
qed

lemma Math_min_above:
  assumes "a = PInf \<or> (\<exists>y. a = Fin y \<and> d \<le> y)" "b = PInf \<or> (\<exists>y. b = Fin y \<and> d \<le> y)"
  shows "Math_min a b = PInf \<or> (\<exists>y. Math_min a b = Fin y \<and> d \<le> y)"
proof (cases a)
  case (Fin p)
  then have p: "d \<le> p" using assms(1) by simp
  show ?thesis
  proof (cases b)
    case (Fin q)
    then have "d \<le> q" using assms(2) by simp
    then show ?thesis using p \<open>a = Fin p\<close> Fin by (simp add: jsnum_defs)
  qed (use assms(2) p \<open>a = Fin p\<close> in \<open>simp_all add: jsnum_defs\<close>)
next
  case PInf
  show ?thesis
  proof (cases b)
    case (Fin q)
    then have "d \<le> q" using assms(2) by simp
    then show ?thesis using PInf Fin by (simp add: jsnum_defs)
  qed (use assms(2) PInf in \<open>simp_all add: jsnum_defs\<close>)
qed (use assms(1) in simp_all)

lemma clamp_inside:
  assumes "m \<le> d" "hi = PInf \<or> (\<exists>y. hi = Fin y \<and> d \<le> y)"
  shows "clamp (Fin d) (Fin m) hi = Fin d"
  using assms(2)
proof
  assume "hi = PInf"
  then show ?thesis using assms(1) by (simp add: jsnum_defs)
next
  assume "\<exists>y. hi = Fin y \<and> d \<le> y"
  then obtain y where "hi = Fin y" "d \<le> y" by blast
  then show ?thesis using assms(1) by (simp add: jsnum_defs)
qed

text \<open>The delta range around a sash whose two neighbours have room for the delta.\<close>

lemma tentativeDelta_slack:
  assumes idx: "0 \<le> index" "index < int (length vs)"
    and fits: "list_all fitsBounds vs"
    and fits': "list_all fitsBounds (shiftSizes vs (nat index) d)"
  shows "tentativeDelta vs (map size_item vs) (upIndexes index None None)
           (downIndexes index (length vs) None None) (Fin d) = Fin d"
proof -
  let ?k = "nat index"
  let ?sizes = "map size_item vs"
  let ?restU = "range_js (index - 1) (- 1)"
  have k: "?k < length vs" using idx by simp
  have up: "upIndexes index None None = index # ?restU"
    using idx(1) by (simp add: upIndexes_def range_js_up_Cons [symmetric])
  have fit: "fitsBounds (vs ! nat i)" if "0 \<le> i" "i < int (length vs)" for i
    using fits that by (simp add: list_all_length)
  have na: "num_at ?sizes i = size_item (vs ! nat i)" if "0 \<le> i" "i < int (length vs)" for i
    using that by (simp add: num_at_sizes)
  have restU: "\<forall>i \<in> set ?restU. 0 \<le> i \<and> i < int (length vs)"
    using set_range_js_below [OF idx(1)] idx(2) by auto
  \<comment> \<open>the item at the sash\<close>
  from fit [OF idx] obtain a s where it: "minimumSize (view (vs ! ?k)) = Fin a" "size_item (vs ! ?k) = Fin s"
    "0 \<le> a" "0 \<le> s" "snapSize (view (vs ! ?k)) = None \<longrightarrow> a \<le> s" by (rule fitsBoundsE)
  have "fitsBounds (shiftSizes vs ?k d ! ?k)"
    using fits' k by (simp add: list_all_length)
  then have "fitsBounds ((vs ! ?k)\<lparr>size_item := Fin (s + d)\<rparr>)"
    using k it(2) by (simp add: shiftSizes_nth_sash jsnum_defs)
  then have it': "0 \<le> s + d" "snapSize (view (vs ! ?k)) = None \<longrightarrow> a \<le> s + d"
    "jsle (Fin (s + d)) (maximumSize (view (vs ! ?k)))"
    using it(1,3) by (auto simp: fitsBounds_def)
  \<comment> \<open>the up side\<close>
  have "\<exists>r. sumList (map (\<lambda>i. snapMinimum (view (vs ! nat i)) - num_at ?sizes i) ?restU) = Fin r \<and> r \<le> 0"
  proof (rule sumList_nonpos, rule ballI)
    fix i assume "i \<in> set ?restU"
    then have i: "0 \<le> i" "i < int (length vs)" using restU by auto
    from fit [OF i] show "\<exists>r. snapMinimum (view (vs ! nat i)) - num_at ?sizes i = Fin r \<and> r \<le> 0"
      by (elim fitsBoundsE) (auto simp: na [OF i] snapMinimum_def jsnum_defs split: option.splits)
  qed
  then obtain r1 where r1: "sumList (map (\<lambda>i. snapMinimum (view (vs ! nat i)) - num_at ?sizes i) ?restU) = Fin r1"
    "r1 \<le> 0" by blast
  have "\<exists>x. snapMinimum (view (vs ! ?k)) - num_at ?sizes index = Fin x \<and> x \<le> d"
    using it it' by (auto simp: na [OF idx] snapMinimum_def jsnum_defs split: option.splits)
  then obtain x where x: "snapMinimum (view (vs ! ?k)) - num_at ?sizes index = Fin x" "x \<le> d" by blast
  have minUp: "minDeltaUp vs ?sizes (upIndexes index None None) = Fin (x + r1)"
    unfolding minDeltaUp_def up fold_bound_Cons using r1 x by (simp add: jsnum_defs)
  have "upperNonneg (sumList (map (\<lambda>i. maximumSize (view (vs ! nat i)) - num_at ?sizes i) ?restU))"
  proof (rule sumList_upper, rule ballI)
    fix i assume "i \<in> set ?restU"
    then have i: "0 \<le> i" "i < int (length vs)" using restU by auto
    from fit [OF i] show "upperNonneg (maximumSize (view (vs ! nat i)) - num_at ?sizes i)"
      by (elim fitsBoundsE) (auto simp: na [OF i] upperNonneg_def jsnum_defs)
  qed
  moreover have "maximumSize (view (vs ! ?k)) - num_at ?sizes index = PInf
      \<or> (\<exists>y. maximumSize (view (vs ! ?k)) - num_at ?sizes index = Fin y \<and> d \<le> y)"
    using it it' by (cases "maximumSize (view (vs ! ?k))") (auto simp: na [OF idx] jsnum_defs)
  ultimately have maxUp: "maxDeltaUp vs ?sizes (upIndexes index None None) = PInf
      \<or> (\<exists>y. maxDeltaUp vs ?sizes (upIndexes index None None) = Fin y \<and> d \<le> y)"
    unfolding maxDeltaUp_def up fold_bound_Cons by (auto simp: upperNonneg_def jsnum_defs)
  \<comment> \<open>the down side\<close>
  have down: "(minDeltaDown vs ?sizes (downIndexes index (length vs) None None) = NInf
        \<or> (\<exists>y. minDeltaDown vs ?sizes (downIndexes index (length vs) None None) = Fin y \<and> y \<le> d))
      \<and> (maxDeltaDown vs ?sizes (downIndexes index (length vs) None None) = PInf
        \<or> (\<exists>y. maxDeltaDown vs ?sizes (downIndexes index (length vs) None None) = Fin y \<and> d \<le> y))"
  proof (cases "index + 1 < int (length vs)")
    case False
    then have "index + 1 = int (length vs)" using idx by simp
    then have "downIndexes index (length vs) None None = []" by (simp add: downIndexes_def)
    then show ?thesis by (simp add: minDeltaDown_def maxDeltaDown_def)
  next
    case True
    let ?j = "index + 1"
    let ?restD = "range_js (index + 2) (int (length vs))"
    have dn: "downIndexes index (length vs) None None = ?j # ?restD"
      using True by (simp add: downIndexes_def range_js_down_Cons [symmetric])
    have j: "0 \<le> ?j" "?j < int (length vs)" using idx True by simp_all
    have nj: "nat ?j = Suc ?k" using idx by simp
    have restD: "\<forall>i \<in> set ?restD. 0 \<le> i \<and> i < int (length vs)"
      using set_range_js_above [OF True] idx(1) by auto
    from fit [OF j] obtain a1 s1 where jt: "minimumSize (view (vs ! nat ?j)) = Fin a1"
      "size_item (vs ! nat ?j) = Fin s1" "0 \<le> a1" "0 \<le> s1"
      "snapSize (view (vs ! nat ?j)) = None \<longrightarrow> a1 \<le> s1" by (rule fitsBoundsE)
    have sk: "Suc ?k < length vs" using True idx by simp
    then have "fitsBounds (shiftSizes vs ?k d ! Suc ?k)"
      using fits' by (simp add: list_all_length)
    then have "fitsBounds ((vs ! Suc ?k)\<lparr>size_item := Fin (s1 - d)\<rparr>)"
      using sk jt(2) by (simp add: shiftSizes_nth_next nj jsnum_defs)
    then have jt': "0 \<le> s1 - d" "snapSize (view (vs ! nat ?j)) = None \<longrightarrow> a1 \<le> s1 - d"
      "jsle (Fin (s1 - d)) (maximumSize (view (vs ! nat ?j)))"
      using jt(1,3) by (auto simp: fitsBounds_def nj)
    have "lowerNonpos (sumList (map (\<lambda>i. num_at ?sizes i - maximumSize (view (vs ! nat i))) ?restD))"
    proof (rule sumList_lower, rule ballI)
      fix i assume "i \<in> set ?restD"
      then have i: "0 \<le> i" "i < int (length vs)" using restD by auto
      from fit [OF i] show "lowerNonpos (num_at ?sizes i - maximumSize (view (vs ! nat i)))"
        by (elim fitsBoundsE) (auto simp: na [OF i] lowerNonpos_def jsnum_defs)
    qed
    moreover have "num_at ?sizes ?j - maximumSize (view (vs ! nat ?j)) = NInf
      \<or> (\<exists>y. num_at ?sizes ?j - maximumSize (view (vs ! nat ?j)) = Fin y \<and> y \<le> d)"
      using jt jt' by (cases "maximumSize (view (vs ! nat ?j))") (auto simp: na [OF j] jsnum_defs)
    ultimately have A: "minDeltaDown vs ?sizes (downIndexes index (length vs) None None) = NInf
        \<or> (\<exists>y. minDeltaDown vs ?sizes (downIndexes index (length vs) None None) = Fin y \<and> y \<le> d)"
      unfolding minDeltaDown_def dn fold_bound_Cons by (auto simp: lowerNonpos_def jsnum_defs)
    have "\<exists>r. sumList (map (\<lambda>i. num_at ?sizes i - snapMinimum (view (vs ! nat i))) ?restD) = Fin r \<and> 0 \<le> r"
    proof (rule sumList_nonneg, rule ballI)
      fix i assume "i \<in> set ?restD"
      then have i: "0 \<le> i" "i < int (length vs)" using restD by auto
      from fit [OF i] show "\<exists>r. num_at ?sizes i - snapMinimum (view (vs ! nat i)) = Fin r \<and> 0 \<le> r"
        by (elim fitsBoundsE) (auto simp: na [OF i] snapMinimum_def jsnum_defs split: option.splits)
    qed
    moreover have "\<exists>y. num_at ?sizes ?j - snapMinimum (view (vs ! nat ?j)) = Fin y \<and> d \<le> y"
      using jt jt' by (auto simp: na [OF j] snapMinimum_def jsnum_defs split: option.splits)
    ultimately have B: "\<exists>y. maxDeltaDown vs ?sizes (downIndexes index (length vs) None None) = Fin y \<and> d \<le> y"
      unfolding maxDeltaDown_def dn fold_bound_Cons by (auto simp: jsnum_defs)
    from A B show ?thesis by blast
  qed
  have "x + r1 \<le> d" using x(2) r1(2) by simp
  from Math_max_below [OF this conjunct1 [OF down]] obtain m where
    m: "Math_max (Fin (x + r1)) (minDeltaDown vs ?sizes (downIndexes index (length vs) None None)) = Fin m"
       "m \<le> d" by blast
  from clamp_inside [OF m(2) Math_min_above [OF conjunct2 [OF down] maxUp]]
  show ?thesis
    unfolding tentativeDelta_def Let_def minUp m(1) .
qed

lemma baselineSizes_None [simp]: "baselineSizes st None = map size_item (views st)"
  by (simp add: baselineSizes_def)

lemma resizeUp_slack:
  assumes idx: "0 \<le> index" "index < int (length vs)"
    and fits: "list_all fitsBounds vs"
    and fits': "list_all fitsBounds (shiftSizes vs (nat index) d)"
  shows "resizeUp vs (map size_item vs) (upIndexes index None None) (Fin d) 0
           = (vs[nat index := (vs ! nat index)\<lparr>size_item := size_item (vs ! nat index) + Fin d\<rparr>], Fin d)"
proof -
  let ?k = "nat index"
  let ?sizes = "map size_item vs"
  let ?restU = "range_js (index - 1) (- 1)"
  let ?item = "(vs ! ?k)\<lparr>size_item := size_item (vs ! ?k) + Fin d\<rparr>"
  let ?vs1 = "vs[?k := ?item]"
  have k: "?k < length vs" using idx by simp
  have up: "upIndexes index None None = index # ?restU"
    using idx(1) by (simp add: upIndexes_def range_js_up_Cons [symmetric])
  have "fitsBounds (vs ! ?k)" using fits k by (simp add: list_all_length)
  then obtain s where s: "size_item (vs ! ?k) = Fin s" by (rule fitsBoundsE)
  have "fitsBounds (shiftSizes vs ?k d ! ?k)" using fits' k by (simp add: list_all_length)
  then have f': "fitsBounds ?item" using k by (simp add: shiftSizes_nth_sash)
  have na: "num_at ?sizes index = Fin s" using idx s by (simp add: num_at_sizes)
  have c: "clampView (view (vs ! ?k)) (num_at ?sizes index + Fin d) = Fin (s + d)"
    using clampView_fits [OF f'] s na by (simp add: jsnum_defs)
  have vd: "Fin (s + d) - num_at ?sizes index = Fin d" "Fin d - Fin d = Fin 0" "0 + Fin d = Fin d"
    using na by (simp_all add: jsnum_defs)
  have it: "(vs ! ?k)\<lparr>size_item := Fin (s + d)\<rparr> = ?item" using s by (simp add: jsnum_defs)
  have step: "resizeUp vs ?sizes (index # ?restU) (Fin d) 0 = resizeUp ?vs1 ?sizes ?restU (Fin 0) (Fin d)"
    by (simp only: resizeUp.simps Let_def c vd it)
  have idle: "\<forall>i \<in> set ?restU. 0 \<le> i \<and> nat i < length ?vs1 \<and> fitsBounds (?vs1 ! nat i)
             \<and> num_at ?sizes i = size_item (?vs1 ! nat i)"
  proof
    fix i assume "i \<in> set ?restU"
    then have i: "0 \<le> i" "i < index" using set_range_js_below [OF idx(1)] by auto
    then have n: "nat i < length vs" "nat i \<noteq> ?k" using idx by simp_all
    then have "fitsBounds (vs ! nat i)" using fits by (simp add: list_all_length)
    then show "0 \<le> i \<and> nat i < length ?vs1 \<and> fitsBounds (?vs1 ! nat i)
             \<and> num_at ?sizes i = size_item (?vs1 ! nat i)"
      using i n by (simp add: num_at_sizes)
  qed
  show ?thesis unfolding up step by (rule resizeUp_idle [OF idle])
qed

lemma resizeDown_slack:
  assumes idx: "0 \<le> index" "index < int (length vs)"
    and fits: "list_all fitsBounds vs"
    and fits': "list_all fitsBounds (shiftSizes vs (nat index) d)"
  shows "resizeDown (vs[nat index := (vs ! nat index)\<lparr>size_item := size_item (vs ! nat index) + Fin d\<rparr>])
           (map size_item vs) (downIndexes index (length vs) None None) (Fin d)
           = shiftSizes vs (nat index) d"
proof (cases "index + 1 < int (length vs)")
  case False
  then have "index + 1 = int (length vs)" using idx by simp
  then have "downIndexes index (length vs) None None = []" by (simp add: downIndexes_def)
  moreover have "\<not> Suc (nat index) < length vs" using False idx by simp
  ultimately show ?thesis by (simp add: shiftSizes_def Let_def)
next
  case True
  let ?k = "nat index"
  let ?j = "index + 1"
  let ?sizes = "map size_item vs"
  let ?restD = "range_js (index + 2) (int (length vs))"
  let ?vs1 = "vs[?k := (vs ! ?k)\<lparr>size_item := size_item (vs ! ?k) + Fin d\<rparr>]"
  let ?item = "(vs ! Suc ?k)\<lparr>size_item := size_item (vs ! Suc ?k) - Fin d\<rparr>"
  let ?vs2 = "?vs1[Suc ?k := ?item]"
  have sk: "Suc ?k < length vs" using True idx by simp
  have nj: "nat ?j = Suc ?k" using idx by simp
  have dn: "downIndexes index (length vs) None None = ?j # ?restD"
    using True by (simp add: downIndexes_def range_js_down_Cons [symmetric])
  have "fitsBounds (vs ! Suc ?k)" using fits sk by (simp add: list_all_length)
  then obtain s where s: "size_item (vs ! Suc ?k) = Fin s" by (rule fitsBoundsE)
  have "fitsBounds (shiftSizes vs ?k d ! Suc ?k)" using fits' sk by (simp add: list_all_length)
  then have f': "fitsBounds ?item" using sk by (simp add: shiftSizes_nth_next)
  have na: "num_at ?sizes ?j = Fin s" using idx sk s by (simp add: num_at_sizes nj)
  have v1: "?vs1 ! Suc ?k = vs ! Suc ?k" by simp
  have c: "clampView (view (vs ! Suc ?k)) (num_at ?sizes ?j - Fin d) = Fin (s - d)"
    using clampView_fits [OF f'] s na by (simp add: jsnum_defs)
  have vd: "Fin (s - d) - num_at ?sizes ?j = Fin (- d)" "Fin d + Fin (- d) = Fin 0"
    using na by (simp_all add: jsnum_defs)
  have it: "(vs ! Suc ?k)\<lparr>size_item := Fin (s - d)\<rparr> = ?item" using s by (simp add: jsnum_defs)
  have step: "resizeDown ?vs1 ?sizes (?j # ?restD) (Fin d) = resizeDown ?vs2 ?sizes ?restD (Fin 0)"
    by (simp only: resizeDown.simps Let_def v1 c vd it nj)
  have idle: "\<forall>i \<in> set ?restD. 0 \<le> i \<and> nat i < length ?vs2 \<and> fitsBounds (?vs2 ! nat i)
             \<and> num_at ?sizes i = size_item (?vs2 ! nat i)"
  proof
    fix i assume "i \<in> set ?restD"
    then have i: "index + 2 \<le> i" "i < int (length vs)" using set_range_js_above [OF True] by auto
    then have n: "0 \<le> i" "nat i < length vs" "nat i \<noteq> ?k" "nat i \<noteq> Suc ?k" using idx by auto
    then have "fitsBounds (vs ! nat i)" using fits by (simp add: list_all_length)
    then show "0 \<le> i \<and> nat i < length ?vs2 \<and> fitsBounds (?vs2 ! nat i)
             \<and> num_at ?sizes i = size_item (?vs2 ! nat i)"
      using n by (simp add: num_at_sizes)
  qed
  have "?vs2 = shiftSizes vs ?k d" using sk by (simp add: shiftSizes_def Let_def)
  then show ?thesis unfolding dn step using resizeDown_idle [OF idle] by simp
qed

lemma resize_slack:
  assumes idx: "0 \<le> index" "index < int (length (views st))"
    and fits: "list_all fitsBounds (views st)"
    and fits': "list_all fitsBounds (shiftSizes (views st) (nat index) d)"
  shows "resize st index (Fin d) None None None
           = Inr (st\<lparr>views := shiftSizes (views st) (nat index) d\<rparr>)"
  by (simp only: resize_views [OF idx] baselineSizes_None tentativeDelta_slack [OF idx fits fits']
      resizeUp_slack [OF idx fits fits'] fst_conv snd_conv resizeDown_slack [OF idx fits fits'])

lemma shiftSizes_inverse:
  assumes k: "k < length vs" and fits: "list_all fitsBounds vs"
  shows "shiftSizes (shiftSizes vs k d) k (- d) = vs"
proof (rule nth_equalityI)
  show "length (shiftSizes (shiftSizes vs k d) k (- d)) = length vs" by simp
next
  fix i assume "i < length (shiftSizes (shiftSizes vs k d) k (- d))"
  then have i: "i < length vs" by simp
  then have "fitsBounds (vs ! i)" using fits by (simp add: list_all_length)
  then obtain s where s: "size_item (vs ! i) = Fin s" by (rule fitsBoundsE)
  consider "i = k" | "i = Suc k" | "i \<noteq> k" "i \<noteq> Suc k" by blast
  then show "shiftSizes (shiftSizes vs k d) k (- d) ! i = vs ! i"
  proof cases
    case 1
    then show ?thesis using k s by (simp add: shiftSizes_nth_sash jsnum_defs)
  next
    case 2
    then show ?thesis using i s by (simp add: shiftSizes_nth_next jsnum_defs)
  next
    case 3
    then show ?thesis by (simp add: shiftSizes_nth_other)
  qed
qed

subsection \<open>Settling on the last item\<close>

lemma resizeUp_append:
  "\<forall>i \<in> set is. 0 \<le> i \<and> nat i < length pre \<Longrightarrow>
     fst (resizeUp (pre @ suf) sizes is d a) = fst (resizeUp pre sizes is d a) @ suf"
proof (induction "is" arbitrary: pre d a)
  case Nil
  show ?case by simp
next
  case (Cons i "is")
  then have i: "nat i < length pre" and r: "\<forall>j \<in> set is. 0 \<le> j \<and> nat j < length pre" by simp_all
  let ?item = "(pre ! nat i)\<lparr>size_item := clampView (view (pre ! nat i)) (num_at sizes i + d)\<rparr>"
  have r': "\<forall>j \<in> set is. 0 \<le> j \<and> nat j < length (pre[nat i := ?item])" using r by simp
  show ?case
    using i Cons.IH [OF r'] by (simp add: Let_def nth_append list_update_append)
qed

lemma resizeUp_sizes_cong:
  "\<forall>i \<in> set is. num_at sizes i = num_at sizes' i \<Longrightarrow>
     resizeUp vs sizes is d a = resizeUp vs sizes' is d a"
  by (induction "is" arbitrary: vs d a) (simp_all add: Let_def)

text \<open>The up pass from the last item, on the current sizes, is the list recursion.\<close>

lemma resizeUp_absorb:
  "fst (resizeUp vs (map size_item vs) (range_js (int (length vs) - 1) (- 1)) d a)
     = rev (absorb (rev vs) d)"
proof (induction vs arbitrary: d a rule: rev_induct)
  case Nil
  show ?case by simp
next
  case (snoc x pre)
  let ?k = "int (length pre)"
  let ?sizes = "map size_item (pre @ [x])"
  let ?rest = "range_js (?k - 1) (- 1)"
  let ?sz = "clampView (view x) (size_item x + d)"
  let ?x' = "x\<lparr>size_item := ?sz\<rparr>"
  have up: "range_js (int (length (pre @ [x])) - 1) (- 1) = ?k # ?rest"
    using range_js_up_Cons [of ?k] by simp
  have na: "num_at ?sizes ?k = size_item x" by (simp add: num_at_def nth_append)
  have rest: "\<forall>i \<in> set ?rest. 0 \<le> i \<and> nat i < length pre"
  proof
    fix i assume "i \<in> set ?rest"
    then have "i \<in> {0..<?k}" using set_range_js_below [of ?k] by auto
    then show "0 \<le> i \<and> nat i < length pre" by auto
  qed
  have cong: "\<forall>i \<in> set ?rest. num_at ?sizes i = num_at (map size_item pre) i"
    using rest by (auto simp: num_at_def nth_append)
  have "fst (resizeUp (pre @ [x]) ?sizes (?k # ?rest) d a)
          = fst (resizeUp (pre @ [?x']) ?sizes ?rest (d - (?sz - size_item x)) (a + (?sz - size_item x)))"
    by (simp add: Let_def num_at_def nth_append)
  also have "\<dots> = fst (resizeUp pre ?sizes ?rest (d - (?sz - size_item x)) (a + (?sz - size_item x))) @ [?x']"
    by (rule resizeUp_append [OF rest])
  also have "\<dots> = fst (resizeUp pre (map size_item pre) ?rest (d - (?sz - size_item x)) (a + (?sz - size_item x))) @ [?x']"
    by (simp only: resizeUp_sizes_cong [OF cong])
  also have "\<dots> = rev (absorb (rev pre) (d - (?sz - size_item x))) @ [?x']"
    by (simp only: snoc.IH)
  also have "\<dots> = rev (absorb (rev (pre @ [x])) d)"
    by (simp add: Let_def)
  finally show ?case unfolding up .
qed

lemma map_nth_fun: "map (\<lambda>i. f (xs ! i)) [0..<length xs] = map f xs"
  by (rule nth_equalityI) simp_all

lemma shrinkRoom_index:
  "list_all inBounds vs \<Longrightarrow> vs \<noteq> [] \<Longrightarrow>
     specMinDeltaUp vs (map size_item vs) (int (length vs) - 1) = shrinkRoom vs"
proof -
  assume ib: "list_all inBounds vs" and ne: "vs \<noteq> []"
  then have n: "nat (int (length vs) - 1) + 1 = length vs" by (cases vs) simp_all
  have "map (\<lambda>i. effectiveMinimum (view (vs ! i)) - num_at (map size_item vs) (int i)) [0..<length vs]
          = map (\<lambda>i. (\<lambda>item. minimumSize (view item) - size_item item) (vs ! i)) [0..<length vs]"
  proof (rule map_cong [OF refl])
    fix i assume "i \<in> set [0..<length vs]"
    then have i: "i < length vs" by simp
    then have "inBounds (vs ! i)" using ib by (simp add: list_all_length)
    then have "effectiveMinimum (view (vs ! i)) = minimumSize (view (vs ! i))"
      by (elim inBoundsE) (simp add: effectiveMinimum_def)
    then show "effectiveMinimum (view (vs ! i)) - num_at (map size_item vs) (int i)
                 = minimumSize (view (vs ! i)) - size_item (vs ! i)"
      using i by (simp add: num_at_def)
  qed
  also have "\<dots> = map (\<lambda>item. minimumSize (view item) - size_item item) vs"
    by (rule map_nth_fun)
  finally show ?thesis
    by (simp only: specMinDeltaUp_def shrinkRoom_def n)
qed

lemma growRoom_index:
  "vs \<noteq> [] \<Longrightarrow> specMaxDeltaUp vs (map size_item vs) (int (length vs) - 1) = growRoom vs"
proof -
  assume ne: "vs \<noteq> []"
  then have n: "nat (int (length vs) - 1) + 1 = length vs" by (cases vs) simp_all
  have "map (\<lambda>i. maximumSize (view (vs ! i)) - num_at (map size_item vs) (int i)) [0..<length vs]
          = map (\<lambda>i. (\<lambda>item. maximumSize (view item) - size_item item) (vs ! i)) [0..<length vs]"
    by (rule map_cong [OF refl]) (simp add: num_at_def)
  also have "\<dots> = map (\<lambda>item. maximumSize (view item) - size_item item) vs"
    by (rule map_nth_fun)
  finally show ?thesis
    by (simp only: specMaxDeltaUp_def growRoom_def n)
qed

lemma distributeViewSizes_conv:
  "distributeViewSizes st
     = relayout (st\<lparr>views := map (assignFlexible (flexSize (views st))) (views st)\<rparr>) None None"
  by (simp add: distributeViewSizes_def Let_def flexSize_def assignFlexible_def [abs_def])

text \<open>Settling on the last item, for items within their bounds.\<close>

lemma resize_last_inBounds:
  assumes ib: "list_all inBounds (views s)" and sz: "size_sv s = Some (Fin t)"
    and lo: "jsle (sumList (map (\<lambda>item. minimumSize (view item)) (views s))) (Fin t)"
    and hi: "jsle (Fin t) (sumList (map (\<lambda>item. maximumSize (view item)) (views s)))"
  shows "resize s (int (length (views s)) - 1) (toNumber (size_sv s) - sumSizes (views s))
           None None None = Inr (distributeEmptySpace s)"
proof (cases "views s = []")
  case True
  then show ?thesis by (simp add: resize_def distributeEmptySpace_def)
next
  case False
  let ?vs = "views s"
  let ?index = "int (length ?vs) - 1"
  have idx: "0 \<le> ?index" "?index < int (length ?vs)" using False by (cases ?vs; simp)+
  from room_for_total [OF ib lo hi] obtain \<sigma> where s: "sumSizes ?vs = Fin \<sigma>"
    "jsle (shrinkRoom ?vs) (Fin (t - \<sigma>))" "jsle (Fin (t - \<sigma>)) (growRoom ?vs)" by blast
  have e: "toNumber (size_sv s) - sumSizes ?vs = Fin (t - \<sigma>)"
    using sz s(1) by (simp add: toNumber_def jsnum_defs)
  from shrinkRoom_fin [OF ib] s(2) obtain r where r: "shrinkRoom ?vs = Fin r" "r \<le> t - \<sigma>"
    by (auto simp: jsnum_defs)
  from growRoom_upper [OF ib] s(3) have g: "growRoom ?vs = PInf \<or> (\<exists>y. growRoom ?vs = Fin y \<and> t - \<sigma> \<le> y)"
    by (auto simp: upperNonneg_def jsnum_defs)
  have up: "upIndexes ?index None None = range_js ?index (- 1)" by (simp add: upIndexes_def)
  have down: "downIndexes ?index (length ?vs) None None = []" by (simp add: downIndexes_def)
  have "specDelta ?vs (map size_item ?vs) ?index (Fin (t - \<sigma>))
          = clamp (Fin (t - \<sigma>)) (Math_max (Fin r) NInf) (Math_min PInf (growRoom ?vs))"
    by (simp only: specDelta_def specMinDeltaDown_def specMaxDeltaDown_def if_True simp_thms
          shrinkRoom_index [OF ib False] growRoom_index [OF False] r(1))
  also have "\<dots> = Fin (t - \<sigma>)"
  proof -
    have "Math_max (Fin r) NInf = Fin r" by (simp add: jsnum_defs)
    moreover have "Math_min PInf (growRoom ?vs) = growRoom ?vs"
      using g by (auto simp: jsnum_defs)
    ultimately show ?thesis using clamp_inside [OF r(2) g] by simp
  qed
  finally have td: "tentativeDelta ?vs (map size_item ?vs) (upIndexes ?index None None)
                      (downIndexes ?index (length ?vs) None None) (Fin (t - \<sigma>)) = Fin (t - \<sigma>)"
    by (simp only: tentativeDelta_spec [OF idx])
  have ibr: "list_all inBounds (rev ?vs)" using ib by simp
  have "resize s ?index (Fin (t - \<sigma>)) None None None
          = Inr (s\<lparr>views := rev (absorb (rev ?vs) (Fin (t - \<sigma>)))\<rparr>)"
    unfolding resize_views [OF idx] baselineSizes_None td
    by (simp only: down resizeDown.simps up resizeUp_absorb)
  moreover have "distributeEmptySpace s = s\<lparr>views := rev (absorb (rev ?vs) (Fin (t - \<sigma>)))\<rparr>"
    by (simp add: distributeEmptySpace_def Let_def e emptySpaceLoop_absorb [OF ibr])
  ultimately show ?thesis by (simp only: e)
qed

lemma relayout_inBounds:
  assumes ib: "list_all inBounds (views s)" and sz: "size_sv s = Some (Fin t)"
    and lo: "jsle (sumList (map (\<lambda>item. minimumSize (view item)) (views s))) (Fin t)"
    and hi: "jsle (Fin t) (sumList (map (\<lambda>item. maximumSize (view item)) (views s)))"
    and inv: "sashCountOk s"
  shows "relayout s None None = Inr (settled (distributeEmptySpace s))"
proof -
  have "shapeOf (distributeEmptySpace s) = shapeOf s" by simp
  then have "length (views (distributeEmptySpace s)) - 1 \<le> length (sashes (distributeEmptySpace s))"
    using inv by (simp add: shapeOf_def sashCountOk_iff)
  from layoutViews_ok [OF this] show ?thesis
    by (simp add: relayout_def Let_def resize_last_inBounds [OF ib sz lo hi] settled_def)
qed

lemma layoutSashes_idem:
  "fst (layoutSashes acc items (fst (layoutSashes acc items ss))) = fst (layoutSashes acc items ss)"
  by (induction acc items ss rule: layoutSashes.induct) (simp_all add: Let_def split_beta)

lemma saveProportions_idem: "saveProportions (saveProportions u) = saveProportions u"
  by (simp add: saveProportions_def)

lemma settled_fields [simp]:
  "views (settled u) = views u" "size_sv (settled u) = size_sv u"
  "contentSize (settled u) = Some (sumSizes (views u))"
  "sashes (settled u) = fst (layoutSashes 0 (butlast (views u)) (sashes u))"
  by (simp_all add: settled_def saveProportions_def)

lemma settled_idem: "settled (settled u) = settled u"
proof -
  let ?s0 = "u\<lparr>contentSize := Some (sumSizes (views u)),
                sashes := fst (layoutSashes 0 (butlast (views u)) (sashes u))\<rparr>"
  have "(settled u)\<lparr>contentSize := Some (sumSizes (views (settled u))),
                     sashes := fst (layoutSashes 0 (butlast (views (settled u))) (sashes (settled u)))\<rparr>
          = settled u"
    by (simp add: layoutSashes_idem)
  then have "settled (settled u) = saveProportions (settled u)"
    by (simp add: settled_def [of "settled u"])
  then show ?thesis by (simp add: settled_def [of u] saveProportions_idem)
qed

subsection \<open>The even share of the flexible items\<close>

lemma sumSizes_filter:
  "sumSizes xs = sumSizes (filter P xs) + sumSizes (filter (\<lambda>x. \<not> P x) xs)"
proof (induction xs)
  case Nil
  show ?case by (simp add: jsnum_defs)
next
  case (Cons x xs)
  show ?case
  proof (cases "P x")
    case True
    then show ?thesis using Cons by (simp only: filter.simps sumSizes_Cons if_True if_False simp_thms jsadd_assoc)
  next
    case False
    have "size_item x + (sumSizes (filter P xs) + sumSizes (filter (\<lambda>x. \<not> P x) xs))
            = sumSizes (filter P xs) + (size_item x + sumSizes (filter (\<lambda>x. \<not> P x) xs))"
      by (rule jsadd_left_commute)
    then show ?thesis using False Cons by (simp only: filter.simps sumSizes_Cons if_True if_False simp_thms)
  qed
qed

lemma flexSize_conv:
  "flexSize vs = Math_floor (jsdiv (sumSizes (filter isFlexible vs))
                                   (Fin (of_nat (length (filter isFlexible vs)))))"
  by (simp add: flexSize_def sumSizes_def)

lemma fixed_size:
  "inBounds item \<Longrightarrow> \<not> isFlexible item \<Longrightarrow> size_item item = minimumSize (view item)"
  by (elim inBoundsE) (auto simp: isFlexible_def jsnum_defs)

lemma assignFlexible_view [simp]: "view (assignFlexible z item) = view item"
  by (simp add: assignFlexible_def)

lemma assignFlexible_inBounds:
  assumes "inBounds item" "isFin z \<or> \<not> isFlexible item"
  shows "inBounds (assignFlexible z item)"
proof (cases "isFlexible item")
  case False
  then show ?thesis using assms(1) by (simp add: assignFlexible_def)
next
  case True
  then obtain q where q: "z = Fin q" using assms(2) by (cases z) (auto simp: isFin_def)
  from assms(1) show ?thesis
    by (elim inBoundsE) (auto simp: assignFlexible_def True q inBounds_def jsnum_defs)
qed

lemma flexSize_fin:
  assumes ib: "list_all inBounds vs" and ex: "\<exists>item \<in> set vs. isFlexible item"
  shows "isFin (flexSize vs)"
proof -
  have "list_all inBounds (filter isFlexible vs)" using ib by (simp add: list_all_iff)
  from sumSizes_fin [OF this] obtain f where f: "sumSizes (filter isFlexible vs) = Fin f" by blast
  have "filter isFlexible vs \<noteq> []" using ex by (simp add: filter_empty_conv)
  then have "length (filter isFlexible vs) \<noteq> 0" by simp
  then show ?thesis by (simp add: flexSize_conv f isFin_def)
qed

lemma assign_inBounds:
  assumes ib: "list_all inBounds vs"
  shows "list_all inBounds (map (assignFlexible (flexSize vs)) vs)"
proof -
  have "inBounds (assignFlexible (flexSize vs) item)" if "item \<in> set vs" for item
  proof (rule assignFlexible_inBounds)
    show "inBounds item" using ib that by (simp add: list_all_iff)
    show "isFin (flexSize vs) \<or> \<not> isFlexible item"
      using flexSize_fin [OF ib] that by blast
  qed
  then show ?thesis by (simp add: list_all_iff)
qed

text \<open>Two settled size distributions over the same views with the same total.\<close>

lemma same_slots:
  assumes "list_all2 (\<lambda>w v. view w = view v \<and> inBounds w \<and> inBounds v) ws vs"
  shows "filter (\<lambda>x. \<not> isFlexible x) ws = filter (\<lambda>x. \<not> isFlexible x) vs
         \<and> length (filter isFlexible ws) = length (filter isFlexible vs)
         \<and> map (assignFlexible z) ws = map (assignFlexible z) vs"
  using assms
proof (induction rule: list_all2_induct)
  case Nil
  show ?case by simp
next
  case (Cons w ws v vs)
  then have wv: "view w = view v" "inBounds w" "inBounds v" by simp_all
  have fl: "isFlexible w = isFlexible v" using wv(1) by (simp add: isFlexible_def)
  show ?case
  proof (cases "isFlexible v")
    case True
    have "assignFlexible z w = assignFlexible z v"
      using wv(1) True fl by (cases w; cases v) (simp add: assignFlexible_def)
    then show ?thesis using Cons.IH True fl by simp
  next
    case False
    have "size_item w = size_item v"
      using fixed_size [OF wv(2)] fixed_size [OF wv(3)] False fl wv(1) by simp
    then have "w = v" using wv(1) by (cases w; cases v) simp
    then show ?thesis using Cons.IH False by simp
  qed
qed

lemma same_assignment:
  assumes vw: "map view ws = map view vs" and ibw: "list_all inBounds ws" and ibv: "list_all inBounds vs"
    and sum: "sumSizes ws = sumSizes vs"
  shows "map (assignFlexible (flexSize ws)) ws = map (assignFlexible (flexSize vs)) vs"
proof -
  have len: "length ws = length vs" using vw by (metis length_map)
  have "list_all2 (\<lambda>w v. view w = view v \<and> inBounds w \<and> inBounds v) ws vs"
  proof (rule list_all2_all_nthI [OF len])
    fix n assume n: "n < length ws"
    then have "view (ws ! n) = view (vs ! n)" using vw len by (metis nth_map)
    then show "view (ws ! n) = view (vs ! n) \<and> inBounds (ws ! n) \<and> inBounds (vs ! n)"
      using ibw ibv n len by (simp add: list_all_length)
  qed
  from same_slots [OF this] have sl:
    "filter (\<lambda>x. \<not> isFlexible x) ws = filter (\<lambda>x. \<not> isFlexible x) vs"
    "length (filter isFlexible ws) = length (filter isFlexible vs)"
    "\<And>z. map (assignFlexible z) ws = map (assignFlexible z) vs" by simp_all
  have fb: "list_all inBounds (filter isFlexible ws)" "list_all inBounds (filter isFlexible vs)"
    "list_all inBounds (filter (\<lambda>x. \<not> isFlexible x) vs)"
    using ibw ibv by (simp_all add: list_all_iff)
  from sumSizes_fin [OF fb(1)] obtain a where a: "sumSizes (filter isFlexible ws) = Fin a" by blast
  from sumSizes_fin [OF fb(2)] obtain b where b: "sumSizes (filter isFlexible vs) = Fin b" by blast
  from sumSizes_fin [OF fb(3)] obtain c where c: "sumSizes (filter (\<lambda>x. \<not> isFlexible x) vs) = Fin c" by blast
  note abc = a b c
  have "Fin a + Fin c = Fin b + Fin c"
    using sum sumSizes_filter [of ws isFlexible] sumSizes_filter [of vs isFlexible] sl(1) abc by simp
  then have "a = b" by (simp add: jsnum_defs)
  then have "flexSize ws = flexSize vs" by (simp add: flexSize_conv abc sl(2))
  then show ?thesis using sl(3) by simp
qed

lemma feasible_total:
  assumes ib: "list_all inBounds vs" and sum: "sumSizes vs = Fin t"
  shows "jsle (sumList (map (\<lambda>item. minimumSize (view item)) vs)) (Fin t)"
    and "jsle (Fin t) (sumList (map (\<lambda>item. maximumSize (view item)) vs))"
proof -
  from shrinkRoom_plus_sizes [OF ib] shrinkRoom_fin [OF ib] sum
  show "jsle (sumList (map (\<lambda>item. minimumSize (view item)) vs)) (Fin t)"
    by (auto simp: jsnum_defs)
  from growRoom_plus_sizes [OF ib] growRoom_upper [OF ib] sum
  show "jsle (Fin t) (sumList (map (\<lambda>item. maximumSize (view item)) vs))"
    by (auto simp: upperNonneg_def jsnum_defs)
qed

lemma bounds_of_views:
  "map view ws = map view vs \<Longrightarrow>
     map (\<lambda>item. minimumSize (view item)) ws = map (\<lambda>item. minimumSize (view item)) vs
     \<and> map (\<lambda>item. maximumSize (view item)) ws = map (\<lambda>item. maximumSize (view item)) vs"
proof -
  assume a: "map view ws = map view vs"
  show ?thesis
    using arg_cong [OF a, of "map minimumSize"] arg_cong [OF a, of "map maximumSize"]
    by (simp add: comp_def)
qed

lemma settled_shape:
  "length (views u) - 1 \<le> length (sashes u) \<Longrightarrow> shapeOf (settled u) = shapeOf u"
  using layoutSashes_ok [of "butlast (views u)" "sashes u" 0] by (simp add: shapeOf_def)

subsection \<open>The two passes in processing order\<close>

lemma view_resizeUp [simp]: "map view (fst (resizeUp vs sizes is d a)) = map view vs"
proof (induction "is" arbitrary: vs d a)
  case Nil
  show ?case by simp
next
  case (Cons i "is")
  have "(map view vs)[nat i := view (vs ! nat i)] = map view (vs[nat i := vs ! nat i])"
    by (simp only: map_update)
  then have "(map view vs)[nat i := view (vs ! nat i)] = map view vs" by (simp only: list_update_id)
  then show ?case by (simp add: Let_def Cons map_update)
qed

lemma view_resizeDown [simp]: "map view (resizeDown vs sizes is d) = map view vs"
proof (induction "is" arbitrary: vs d)
  case Nil
  show ?case by simp
next
  case (Cons i "is")
  have "(map view vs)[nat i := view (vs ! nat i)] = map view (vs[nat i := vs ! nat i])"
    by (simp only: map_update)
  then have "(map view vs)[nat i := view (vs ! nat i)] = map view vs" by (simp only: list_update_id)
  then show ?case by (simp add: Let_def Cons map_update)
qed

lemma resizeUp_order:
  assumes "distinct is" "\<forall>i \<in> set is. 0 \<le> i \<and> nat i < length vs"
  shows "map (\<lambda>i. fst (resizeUp vs sizes is d a) ! nat i) is = absorb (map (baselineItem vs sizes) is) d
       \<and> snd (resizeUp vs sizes is d a) = absorbed (map (baselineItem vs sizes) is) d a"
  using assms
proof (induction "is" arbitrary: vs d a)
  case Nil
  show ?case by simp
next
  case (Cons i "is")
  let ?sz = "clampView (view (vs ! nat i)) (num_at sizes i + d)"
  let ?item = "(vs ! nat i)\<lparr>size_item := ?sz\<rparr>"
  let ?vs1 = "vs[nat i := ?item]"
  let ?d1 = "d - (?sz - num_at sizes i)"
  let ?a1 = "a + (?sz - num_at sizes i)"
  have i: "0 \<le> i" "nat i < length vs" using Cons.prems(2) by simp_all
  have other: "\<forall>j \<in> set is. nat j \<noteq> nat i"
  proof
    fix j assume j: "j \<in> set is"
    then have "j \<noteq> i" "0 \<le> j" using Cons.prems by auto
    then show "nat j \<noteq> nat i" using i by simp
  qed
  have d': "distinct is" and v': "\<forall>j \<in> set is. 0 \<le> j \<and> nat j < length ?vs1"
    using Cons.prems by simp_all
  have step: "resizeUp vs sizes (i # is) d a = resizeUp ?vs1 sizes is ?d1 ?a1"
    by (simp add: Let_def)
  have base: "map (baselineItem ?vs1 sizes) is = map (baselineItem vs sizes) is"
    using other by (intro map_cong refl) (auto simp: baselineItem_def)
  from Cons.IH [OF d' v', of ?d1 ?a1] have ih:
    "map (\<lambda>j. fst (resizeUp ?vs1 sizes is ?d1 ?a1) ! nat j) is = absorb (map (baselineItem vs sizes) is) ?d1"
    "snd (resizeUp ?vs1 sizes is ?d1 ?a1) = absorbed (map (baselineItem vs sizes) is) ?d1 ?a1"
    unfolding base by simp_all
  have hd: "fst (resizeUp ?vs1 sizes is ?d1 ?a1) ! nat i = ?item"
    using resizeUp_nth_other [OF other, of ?vs1 sizes ?d1 ?a1] i by simp
  have b: "view (baselineItem vs sizes i) = view (vs ! nat i)" "size_item (baselineItem vs sizes i) = num_at sizes i"
    "(baselineItem vs sizes i)\<lparr>size_item := ?sz\<rparr> = ?item"
    by (simp_all add: baselineItem_def)
  show ?case unfolding step
    by (simp add: Let_def ih hd b del: resizeUp.simps)
qed

lemma jsneg_add: "- (a + b) = (- a) - (b::jsnum)"
  by (cases a; cases b) (simp_all add: jsnum_defs)

lemma resizeDown_order:
  assumes "distinct is" "\<forall>i \<in> set is. 0 \<le> i \<and> nat i < length vs"
  shows "map (\<lambda>i. resizeDown vs sizes is dd ! nat i) is = absorb (map (baselineItem vs sizes) is) (- dd)"
  using assms
proof (induction "is" arbitrary: vs dd)
  case Nil
  show ?case by simp
next
  case (Cons i "is")
  let ?sz = "clampView (view (vs ! nat i)) (num_at sizes i - dd)"
  let ?item = "(vs ! nat i)\<lparr>size_item := ?sz\<rparr>"
  let ?vs1 = "vs[nat i := ?item]"
  let ?d1 = "dd + (?sz - num_at sizes i)"
  have i: "0 \<le> i" "nat i < length vs" using Cons.prems(2) by simp_all
  have other: "\<forall>j \<in> set is. nat j \<noteq> nat i"
  proof
    fix j assume j: "j \<in> set is"
    then have "j \<noteq> i" "0 \<le> j" using Cons.prems by auto
    then show "nat j \<noteq> nat i" using i by simp
  qed
  have d': "distinct is" and v': "\<forall>j \<in> set is. 0 \<le> j \<and> nat j < length ?vs1"
    using Cons.prems by simp_all
  have step: "resizeDown vs sizes (i # is) dd = resizeDown ?vs1 sizes is ?d1"
    by (simp add: Let_def)
  have base: "map (baselineItem ?vs1 sizes) is = map (baselineItem vs sizes) is"
    using other by (intro map_cong refl) (auto simp: baselineItem_def)
  from Cons.IH [OF d' v', of ?d1] have ih:
    "map (\<lambda>j. resizeDown ?vs1 sizes is ?d1 ! nat j) is = absorb (map (baselineItem vs sizes) is) (- ?d1)"
    unfolding base by simp
  have hd: "resizeDown ?vs1 sizes is ?d1 ! nat i = ?item"
    using resizeDown_nth_other [OF other, of ?vs1 sizes ?d1] i by simp
  have b: "view (baselineItem vs sizes i) = view (vs ! nat i)" "size_item (baselineItem vs sizes i) = num_at sizes i"
    "(baselineItem vs sizes i)\<lparr>size_item := ?sz\<rparr> = ?item"
    by (simp_all add: baselineItem_def)
  have m: "num_at sizes i + (- dd) = num_at sizes i - dd"
    by (simp add: jsnum_defs)
  show ?case unfolding step
    by (simp add: Let_def ih hd b m jsneg_add del: resizeDown.simps)
qed

lemma absorbed_sum:
  assumes "list_all inBounds xs" "jsle (shrinkRoom xs) (Fin d)" "jsle (Fin d) (growRoom xs)"
  shows "absorbed xs (Fin d) (Fin a) = Fin (a + d)"
  using assms
proof (induction xs arbitrary: d a)
  case Nil
  then show ?case by (simp add: jsnum_defs)
next
  case (Cons item items)
  then have ib: "inBounds item" and ibs: "list_all inBounds items" by simp_all
  from absorb_step [OF ib ibs Cons.prems(2,3)] obtain s s' where st: "size_item item = Fin s"
    "clampView (view item) (size_item item + Fin d) = Fin s'"
    "inBounds (item\<lparr>size_item := Fin s'\<rparr>)"
    "jsle (shrinkRoom items) (Fin (d - (s' - s)))" "jsle (Fin (d - (s' - s))) (growRoom items)"
    by blast
  have eq: "absorbed (item # items) (Fin d) (Fin a) = absorbed items (Fin (d - (s' - s))) (Fin (a + (s' - s)))"
    using st(1,2) by (simp add: Let_def jsnum_defs) (simp add: algebra_simps)
  show ?case unfolding eq Cons.IH [OF ibs st(4,5)] by simp
qed

lemma jsneg_plus: "- (a + b) = (- a) + (- (b::jsnum))"
  by (cases a; cases b) (simp_all add: jsnum_defs)

lemma jsneg_diff: "a - b = - (b - (a::jsnum))"
  by (cases a; cases b) (simp_all add: jsnum_defs)

lemma jsneg_zero [simp]: "- (0::jsnum) = 0"
  by (simp add: jsnum_defs)

lemma sumList_neg: "sumList (map (\<lambda>x. f x - g x) xs) = - sumList (map (\<lambda>x. g x - f x) xs)"
proof (induction xs)
  case Nil
  show ?case by simp
next
  case (Cons x xs)
  show ?case using jsneg_diff [of "f x" "g x"] by (simp add: Cons jsneg_plus)
qed

lemma fold_bound: "foldl (\<lambda>acc i. acc + f i - g i) 0 is = sumList (map (\<lambda>i. f i - g i) is)"
  by (simp only: foldl_delta) simp

lemma minDeltaUp_room:
  assumes "\<forall>i \<in> set is. snapSize (view (vs ! nat i)) = None"
  shows "minDeltaUp vs sizes is = shrinkRoom (map (baselineItem vs sizes) is)"
proof -
  have "map (\<lambda>i. snapMinimum (view (vs ! nat i)) - num_at sizes i) is
          = map (\<lambda>i. minimumSize (view (baselineItem vs sizes i)) - size_item (baselineItem vs sizes i)) is"
    using assms by (intro map_cong refl) (simp add: baselineItem_def snapMinimum_def)
  note eq = this
  have "minDeltaUp vs sizes is = sumList (map (\<lambda>i. snapMinimum (view (vs ! nat i)) - num_at sizes i) is)"
    by (simp add: minDeltaUp_def fold_bound)
  also have "\<dots> = sumList (map (\<lambda>i. minimumSize (view (baselineItem vs sizes i)) - size_item (baselineItem vs sizes i)) is)"
    by (simp only: eq)
  also have "\<dots> = shrinkRoom (map (baselineItem vs sizes) is)"
    by (simp add: shrinkRoom_def comp_def)
  finally show ?thesis .
qed

lemma maxDeltaUp_room: "maxDeltaUp vs sizes is = growRoom (map (baselineItem vs sizes) is)"
  by (simp add: maxDeltaUp_def fold_bound growRoom_def comp_def baselineItem_def)

lemma maxDeltaDown_room:
  assumes "\<forall>i \<in> set is. snapSize (view (vs ! nat i)) = None" "is \<noteq> []"
  shows "maxDeltaDown vs sizes is = - shrinkRoom (map (baselineItem vs sizes) is)"
proof -
  have "map (\<lambda>i. snapMinimum (view (vs ! nat i)) - num_at sizes i) is
          = map (\<lambda>i. minimumSize (view (baselineItem vs sizes i)) - size_item (baselineItem vs sizes i)) is"
    using assms by (intro map_cong refl) (simp add: baselineItem_def snapMinimum_def)
  note eq = this
  have "shrinkRoom (map (baselineItem vs sizes) is)
          = sumList (map (\<lambda>i. minimumSize (view (baselineItem vs sizes i)) - size_item (baselineItem vs sizes i)) is)"
    by (simp add: shrinkRoom_def comp_def)
  also have "\<dots> = sumList (map (\<lambda>i. snapMinimum (view (vs ! nat i)) - num_at sizes i) is)"
    by (simp only: eq)
  finally show ?thesis using assms(2)
    by (simp add: maxDeltaDown_def fold_bound sumList_neg [of "num_at sizes"])
qed

lemma minDeltaDown_room:
  assumes "is \<noteq> []"
  shows "minDeltaDown vs sizes is = - growRoom (map (baselineItem vs sizes) is)"
proof -
  have "growRoom (map (baselineItem vs sizes) is)
               = sumList (map (\<lambda>i. maximumSize (view (vs ! nat i)) - num_at sizes i) is)"
    by (simp add: growRoom_def comp_def baselineItem_def)
  then show ?thesis using assms
    by (simp add: minDeltaDown_def fold_bound sumList_neg [of "num_at sizes"])
qed

text \<open>A finite delta clamped into a range that contains 0.\<close>

lemma clamped_within:
  assumes a: "a = Fin r" "r \<le> 0" and b: "lowerNonpos b" and c: "upperNonneg c" and e: "upperNonneg e"
  shows "\<exists>d. clamp (Fin \<delta>) (Math_max a b) (Math_min c e) = Fin d
             \<and> jsle a (Fin d) \<and> jsle b (Fin d) \<and> jsle (Fin d) c \<and> jsle (Fin d) e"
proof -
  from b have b': "b = NInf \<or> (\<exists>y. b = Fin y \<and> y \<le> 0)" by (simp add: lowerNonpos_def)
  from c have c': "c = PInf \<or> (\<exists>y. c = Fin y \<and> 0 \<le> y)" by (simp add: upperNonneg_def)
  from e have e': "e = PInf \<or> (\<exists>y. e = Fin y \<and> 0 \<le> y)" by (simp add: upperNonneg_def)
  have lo: "\<exists>l. Math_max a b = Fin l \<and> l \<le> 0 \<and> jsle a (Fin l) \<and> jsle b (Fin l)"
    using b' a by (elim disjE exE conjE) (simp_all add: jsnum_defs)
  then obtain l where l: "Math_max a b = Fin l" "l \<le> 0" "jsle a (Fin l)" "jsle b (Fin l)" by blast
  have hi: "Math_min c e = PInf \<and> c = PInf \<and> e = PInf
            \<or> (\<exists>h. Math_min c e = Fin h \<and> 0 \<le> h \<and> jsle (Fin h) c \<and> jsle (Fin h) e)"
    using c' e' by (elim disjE exE conjE) (simp_all add: jsnum_defs)
  have up: "jsle x (Fin l) \<Longrightarrow> l \<le> d \<Longrightarrow> jsle x (Fin d)" for x d
    by (cases x) (simp_all add: jsnum_defs)
  have dn: "jsle (Fin h) x \<Longrightarrow> d \<le> h \<Longrightarrow> jsle (Fin d) x" for x d h
    by (cases x) (simp_all add: jsnum_defs)
  from hi show ?thesis
  proof (elim disjE exE conjE)
    assume h: "Math_min c e = PInf" "c = PInf" "e = PInf"
    have "clamp (Fin \<delta>) (Fin l) PInf = Fin (max \<delta> l)" by (simp add: jsnum_defs max_def)
    moreover have "l \<le> max \<delta> l" by simp
    ultimately show ?thesis using l h up [OF l(3)] up [OF l(4)]
      by (intro exI [of _ "max \<delta> l"]) (simp add: jsnum_defs)
  next
    fix h assume h: "Math_min c e = Fin h" "0 \<le> h" "jsle (Fin h) c" "jsle (Fin h) e"
    have "clamp (Fin \<delta>) (Fin l) (Fin h) = Fin (min h (max \<delta> l))" by (simp add: jsnum_defs max_def min_def)
    moreover have "l \<le> min h (max \<delta> l)" "min h (max \<delta> l) \<le> h" using l(2) h(2) by simp_all
    ultimately show ?thesis using l h up [OF l(3)] up [OF l(4)] dn [OF h(3)] dn [OF h(4)]
      by (intro exI [of _ "min h (max \<delta> l)"]) simp
  qed
qed

lemma jsle_neg_left: "jsle (- a) (Fin d) \<Longrightarrow> jsle (Fin (- d)) a"
  by (cases a) (simp_all add: jsnum_defs)

lemma jsle_neg_right: "jsle (Fin d) (- a) \<Longrightarrow> jsle a (Fin (- d))"
  by (cases a) (simp_all add: jsnum_defs)

lemma take_nth_map: "k \<le> length xs \<Longrightarrow> take k xs = map (\<lambda>i. xs ! i) [0..<k]"
  by (rule nth_equalityI) simp_all

lemma drop_nth_map: "drop k xs = map (\<lambda>i. xs ! i) [k..<length xs]"
  by (rule nth_equalityI) simp_all

lemma distinct_downIndexes: "distinct (downIndexes index n low high)"
  using mset_downIndexes [of index n low high] distinct_range_js [of "index + 1" "int n"]
  by (metis mset_eq_imp_distinct_iff)

lemma baselineItem_withSizes:
  assumes "length sizes = length (views st)" "0 \<le> i" "i < int (length (views st))"
  shows "baselineItem (views st) sizes i = views (withSizes st sizes) ! nat i"
  using assms by (simp add: baselineItem_def withSizes_def num_at_def)

lemma lowerNonpos_neg: "upperNonneg x \<Longrightarrow> lowerNonpos (- x)"
  by (auto simp: upperNonneg_def lowerNonpos_def jsnum_defs)

lemma sumList_take_index:
  assumes "0 \<le> index" "nat index + 1 \<le> length xs"
  shows "sumList (take (nat index + 1) (map f xs)) = sumList (map (\<lambda>i. f (xs ! nat i)) (upIndexes index low high))"
proof -
  have "take (nat index + 1) (map f xs) = map (\<lambda>i. map f xs ! i) [0..<nat index + 1]"
    using assms(2) by (intro take_nth_map) simp
  also have "\<dots> = map (\<lambda>i. f (xs ! i)) [0..<nat index + 1]"
    using assms(2) by (intro map_cong refl) auto
  also have "\<dots> = map (\<lambda>i. f (xs ! nat i)) (map int [0..<nat index + 1])"
    by (simp add: comp_def del: upt_Suc)
  finally have "sumList (take (nat index + 1) (map f xs))
      = sumList (map (\<lambda>i. f (xs ! nat i)) (map int [0..<nat index + 1]))" by (simp only:)
  also have "\<dots> = sumList (map (\<lambda>i. f (xs ! nat i)) (upIndexes index low high))"
    by (rule sumList_mset [OF mset_up_spec [OF assms(1), symmetric]])
  finally show ?thesis .
qed

lemma sumList_drop_index:
  assumes "0 \<le> index" "index < int (length xs)"
  shows "sumList (drop (nat index + 1) (map f xs))
           = sumList (map (\<lambda>i. f (xs ! nat i)) (downIndexes index (length xs) low high))"
proof -
  have "drop (nat index + 1) (map f xs) = map (\<lambda>i. map f xs ! i) [nat index + 1..<length (map f xs)]"
    by (rule drop_nth_map)
  also have "\<dots> = map (\<lambda>i. f (xs ! i)) [nat index + 1..<length xs]"
    by (intro map_cong) simp_all
  also have "\<dots> = map (\<lambda>i. f (xs ! nat i)) (map int [nat index + 1..<length xs])"
    by (simp add: comp_def del: upt_Suc)
  finally have "sumList (drop (nat index + 1) (map f xs))
      = sumList (map (\<lambda>i. f (xs ! nat i)) (map int [nat index + 1..<length xs]))" by (simp only:)
  also have "\<dots> = sumList (map (\<lambda>i. f (xs ! nat i)) (downIndexes index (length xs) low high))"
    by (rule sumList_mset [OF mset_down_spec [OF assms, symmetric]])
  finally show ?thesis .
qed

lemma resize_conserves:
  assumes idx: "0 \<le> index" "index < int (length (views st))"
    and len: "length (baselineSizes st sizesArg) = length (views st)"
    and ib: "list_all inBounds (views (withSizes st (baselineSizes st sizesArg)))"
  shows "\<exists>st' d. resize st index (Fin \<delta>) sizesArg low high = Inr st'
           \<and> tentativeDelta (views st) (baselineSizes st sizesArg) (upIndexes index low high)
                (downIndexes index (length (views st)) low high) (Fin \<delta>) = Fin d
           \<and> appliedDelta st index (Fin \<delta>) sizesArg low high = Fin d
           \<and> sumList (take (nat index + 1) (map size_item (views st')))
               = sumList (take (nat index + 1) (baselineSizes st sizesArg)) + Fin d
           \<and> (index + 1 < int (length (views st)) \<longrightarrow>
                sumList (drop (nat index + 1) (map size_item (views st')))
                  = sumList (drop (nat index + 1) (baselineSizes st sizesArg)) - Fin d)
           \<and> list_all inBounds (views st')"
proof -
  define vs where "vs = views st"
  define sizes where "sizes = baselineSizes st sizesArg"
  define up where "up = upIndexes index low high"
  define down where "down = downIndexes index (length vs) low high"
  define B where "B = baselineItem vs sizes"
  define U where "U = map B up"
  define D where "D = map B down"
  have idx': "index < int (length vs)" using idx by (simp add: vs_def)
  have lens: "length sizes = length vs" using len by (simp add: vs_def sizes_def)
  have su: "set up = {0..index}" unfolding up_def using idx(1) by (rule set_upIndexes)
  have sd: "set down = {index + 1..<int (length vs)}"
    unfolding down_def using idx' by (intro set_downIndexes) simp
  have du: "distinct up" unfolding up_def by (rule distinct_upIndexes)
  have dd: "distinct down" unfolding down_def by (rule distinct_downIndexes)
  have vu: "\<forall>i \<in> set up. 0 \<le> i \<and> nat i < length vs" using su idx' by auto
  have vd: "\<forall>i \<in> set down. 0 \<le> i \<and> nat i < length vs" using sd idx(1) by auto
  have Bib: "inBounds (B i)" if "0 \<le> i" "i < int (length vs)" for i
  proof -
    have "B i = views (withSizes st sizes) ! nat i"
      unfolding B_def vs_def using that lens by (intro baselineItem_withSizes) (simp_all add: vs_def)
    moreover have "nat i < length (views (withSizes st sizes))"
      using that lens by (simp add: withSizes_def vs_def)
    ultimately show ?thesis using ib by (simp add: list_all_length sizes_def)
  qed
  have ibU: "list_all inBounds U" using vu Bib by (auto simp: U_def list_all_iff)
  have ibD: "list_all inBounds D" using vd Bib by (auto simp: D_def list_all_iff)
  have nosnap: "snapSize (view (vs ! nat i)) = None" if "0 \<le> i" "i < int (length vs)" for i
  proof -
    have "snapSize (view (B i)) = None" using Bib [OF that] by (rule inBoundsE)
    then show ?thesis by (simp add: B_def baselineItem_def)
  qed
  have nsU: "\<forall>i \<in> set up. snapSize (view (vs ! nat i)) = None" using vu nosnap by auto
  have nsD: "\<forall>i \<in> set down. snapSize (view (vs ! nat i)) = None" using vd nosnap by auto
  have mu: "minDeltaUp vs sizes up = shrinkRoom U" unfolding U_def B_def by (rule minDeltaUp_room [OF nsU])
  have Mu: "maxDeltaUp vs sizes up = growRoom U" unfolding U_def B_def by (rule maxDeltaUp_room)
  from shrinkRoom_fin [OF ibU] obtain r where r: "shrinkRoom U = Fin r" "r \<le> 0" by blast
  have gU: "upperNonneg (growRoom U)" by (rule growRoom_upper [OF ibU])
  from shrinkRoom_fin [OF ibD] obtain r' where r': "shrinkRoom D = Fin r'" "r' \<le> 0" by blast
  have gD: "upperNonneg (growRoom D)" by (rule growRoom_upper [OF ibD])
  have md: "down \<noteq> [] \<Longrightarrow> minDeltaDown vs sizes down = - growRoom D"
    unfolding D_def B_def by (rule minDeltaDown_room)
  have Md: "down \<noteq> [] \<Longrightarrow> maxDeltaDown vs sizes down = - shrinkRoom D"
    unfolding D_def B_def by (rule maxDeltaDown_room [OF nsD])
  have lowD: "lowerNonpos (minDeltaDown vs sizes down)"
  proof (cases "down = []")
    case True
    then show ?thesis by (simp add: minDeltaDown_def lowerNonpos_def)
  next
    case False
    then show ?thesis using lowerNonpos_neg [OF gD] by (simp add: md)
  qed
  have upD: "upperNonneg (maxDeltaDown vs sizes down)"
  proof (cases "down = []")
    case True
    then show ?thesis by (simp add: maxDeltaDown_def upperNonneg_def)
  next
    case False
    then show ?thesis using r' by (simp add: Md upperNonneg_def jsnum_defs)
  qed
  from clamped_within [OF r lowD upD gU, of \<delta>] obtain d where
    d: "clamp (Fin \<delta>) (Math_max (shrinkRoom U) (minDeltaDown vs sizes down))
          (Math_min (maxDeltaDown vs sizes down) (growRoom U)) = Fin d"
       "jsle (shrinkRoom U) (Fin d)" "jsle (minDeltaDown vs sizes down) (Fin d)"
       "jsle (Fin d) (maxDeltaDown vs sizes down)" "jsle (Fin d) (growRoom U)" by blast
  have td: "tentativeDelta vs sizes up down (Fin \<delta>) = Fin d"
    by (simp add: tentativeDelta_def Let_def mu Mu d(1))
  from absorb_sum [OF ibU d(2) d(5)] have aU:
    "list_all inBounds (absorb U (Fin d))" "sumSizes (absorb U (Fin d)) = sumSizes U + Fin d"
    by simp_all
  have act: "absorbed U (Fin d) 0 = Fin d"
    using absorbed_sum [OF ibU d(2) d(5), of 0] by (simp add: zero_jsnum_def)
  define vs1 where "vs1 = fst (resizeUp vs sizes up (Fin d) 0)"
  define vs2 where "vs2 = resizeDown vs1 sizes down (Fin d)"
  from resizeUp_order [OF du vu, of sizes "Fin d" 0] act have o1:
    "map (\<lambda>i. vs1 ! nat i) up = absorb U (Fin d)" "snd (resizeUp vs sizes up (Fin d) 0) = Fin d"
    by (simp_all add: vs1_def U_def B_def)
  have res: "resize st index (Fin \<delta>) sizesArg low high = Inr (st\<lparr>views := vs2\<rparr>)"
    unfolding resize_views [OF idx]
    using td o1(2) by (simp add: vs_def [symmetric] sizes_def [symmetric] up_def [symmetric]
        down_def [symmetric] vs1_def vs2_def)
  have ap: "appliedDelta st index (Fin \<delta>) sizesArg low high = Fin d"
    using td o1(2) by (simp add: appliedDelta_def Let_def vs_def [symmetric] sizes_def [symmetric]
        up_def [symmetric] down_def [symmetric])
  have l1: "length vs1 = length vs" by (simp add: vs1_def)
  have l2: "length vs2 = length vs" by (simp add: vs2_def l1)
  have upmap: "map (\<lambda>i. vs2 ! nat i) up = absorb U (Fin d)"
  proof -
    have "map (\<lambda>i. vs2 ! nat i) up = map (\<lambda>i. vs1 ! nat i) up"
    proof (intro map_cong refl)
      fix i assume i: "i \<in> set up"
      have "\<forall>j \<in> set down. nat j \<noteq> nat i" using i su sd by auto
      then show "vs2 ! nat i = vs1 ! nat i" unfolding vs2_def by (rule resizeDown_nth_other)
    qed
    then show ?thesis by (simp only: o1(1))
  qed
  have vd1: "\<forall>i \<in> set down. 0 \<le> i \<and> nat i < length vs1" using vd by (simp add: l1)
  have D1: "map (baselineItem vs1 sizes) down = D"
    unfolding D_def B_def
  proof (intro map_cong refl)
    fix j assume j: "j \<in> set down"
    have "\<forall>i \<in> set up. nat i \<noteq> nat j" using j su sd by auto
    then have "vs1 ! nat j = vs ! nat j" unfolding vs1_def by (rule resizeUp_nth_other)
    then show "baselineItem vs1 sizes j = baselineItem vs sizes j" by (simp add: baselineItem_def)
  qed
  have downmap: "map (\<lambda>i. vs2 ! nat i) down = absorb D (Fin (- d))"
    using resizeDown_order [OF dd vd1, of sizes "Fin d"] by (simp add: vs2_def D1 jsnum_defs)
  have k: "nat index + 1 \<le> length vs" using idx idx' by simp
  have sizeU: "sumSizes U = sumList (take (nat index + 1) sizes)"
  proof -
    have "sumList (take (nat index + 1) (map (\<lambda>x. x) sizes)) = sumList (map (\<lambda>i. sizes ! nat i) up)"
      unfolding up_def using k lens by (intro sumList_take_index [OF idx(1)]) simp
    moreover have "map (\<lambda>i. sizes ! nat i) up = map size_item U"
      using vu lens by (auto simp: U_def B_def baselineItem_def num_at_def)
    ultimately show ?thesis by (simp add: sumSizes_conv)
  qed
  have sumU: "sumList (take (nat index + 1) (map size_item vs2))
                = sumList (take (nat index + 1) sizes) + Fin d"
  proof -
    have "sumList (take (nat index + 1) (map size_item vs2)) = sumList (map (\<lambda>i. size_item (vs2 ! nat i)) up)"
      unfolding up_def using k l2 by (intro sumList_take_index [OF idx(1)]) simp
    also have "\<dots> = sumSizes (map (\<lambda>i. vs2 ! nat i) up)" by (simp add: sumSizes_conv comp_def)
    also have "\<dots> = sumSizes U + Fin d" by (simp only: upmap aU(2))
    finally show ?thesis by (simp only: sizeU)
  qed
  have sumD: "sumList (drop (nat index + 1) (map size_item vs2))
                = sumList (drop (nat index + 1) sizes) - Fin d" if nd: "index + 1 < int (length vs)"
  proof -
    have ne: "down \<noteq> []" using sd nd by auto
    have lo: "jsle (shrinkRoom D) (Fin (- d))"
      using d(4) by (simp only: Md [OF ne]) (rule jsle_neg_right)
    have hi: "jsle (Fin (- d)) (growRoom D)"
      using d(3) by (simp only: md [OF ne]) (rule jsle_neg_left)
    from absorb_sum [OF ibD lo hi] have aD: "sumSizes (absorb D (Fin (- d))) = sumSizes D + Fin (- d)"
      by simp
    have idx2: "index < int (length vs2)" using idx' by (simp add: l2)
    have "sumList (drop (nat index + 1) (map size_item vs2))
            = sumList (map (\<lambda>i. size_item (vs2 ! nat i)) (downIndexes index (length vs2) low high))"
      by (rule sumList_drop_index [OF idx(1) idx2])
    also have "\<dots> = sumSizes (map (\<lambda>i. vs2 ! nat i) down)"
      by (simp add: sumSizes_conv comp_def down_def l2)
    also have "\<dots> = sumSizes D + Fin (- d)" by (simp only: downmap aD)
    finally have 1: "sumList (drop (nat index + 1) (map size_item vs2)) = sumSizes D + Fin (- d)" .
    have idx3: "index < int (length sizes)" using idx' by (simp add: lens)
    have "sumList (drop (nat index + 1) (map (\<lambda>x. x) sizes))
            = sumList (map (\<lambda>i. sizes ! nat i) (downIndexes index (length sizes) low high))"
      by (rule sumList_drop_index [OF idx(1) idx3])
    moreover have "map (\<lambda>i. sizes ! nat i) down = map size_item D"
      using vd lens by (auto simp: D_def B_def baselineItem_def num_at_def)
    ultimately have 2: "sumSizes D = sumList (drop (nat index + 1) sizes)"
      by (simp add: sumSizes_conv down_def lens)
    show ?thesis unfolding 1 2 by (simp add: jsnum_defs)
  qed
  have ib2: "list_all inBounds vs2"
  proof -
    have "inBounds (vs2 ! k)" if "k < length vs2" for k
    proof (cases "int k \<le> index")
      case True
      then have "int k \<in> set up" using su by simp
      then have "vs2 ! nat (int k) \<in> set (map (\<lambda>i. vs2 ! nat i) up)" by (simp add: image_iff) (metis nat_int)
      then show ?thesis using aU(1) by (simp add: upmap list_all_iff)
    next
      case False
      then have nd: "index + 1 < int (length vs)" and kd: "int k \<in> set down"
        using sd that l2 by auto
      have ne: "down \<noteq> []" using kd by auto
      have lo: "jsle (shrinkRoom D) (Fin (- d))"
        using d(4) by (simp only: Md [OF ne]) (rule jsle_neg_right)
      have hi: "jsle (Fin (- d)) (growRoom D)"
        using d(3) by (simp only: md [OF ne]) (rule jsle_neg_left)
      from absorb_sum [OF ibD lo hi] have aD: "list_all inBounds (absorb D (Fin (- d)))" by simp
      have "vs2 ! nat (int k) \<in> set (map (\<lambda>i. vs2 ! nat i) down)" using kd by (simp add: image_iff) (metis nat_int)
      then show ?thesis using aD by (simp add: downmap list_all_iff)
    qed
    then show ?thesis by (simp add: list_all_length)
  qed
  show ?thesis
    using res td ap sumU sumD ib2
    by (simp add: vs_def [symmetric] sizes_def [symmetric] up_def [symmetric] down_def [symmetric])
qed

section \<open>Scenarios B and C\<close>

text \<open>
  C3. Two items of baseline sizes 100 and 100 in a container of 200, minimums 50 and 50,
  maximums unbounded: \<open>resize(0, 30, [100, 100])\<close> gives sizes 130 and 70. With the
  minimum of item 1 at 90 the same call gives 110 and 90.
\<close>

theorem resize_scenarios_B_C:
  "resize scenarioB 0 (Fin 30) (Some [Fin 100, Fin 100]) None None
     = Inr (withSizes scenarioB [Fin 130, Fin 70])
   \<and> resize scenarioC 0 (Fin 30) (Some [Fin 100, Fin 100]) None None
     = Inr (withSizes scenarioC [Fin 110, Fin 90])"
  by code_simp

section \<open>Out-of-range indexes and the empty engine\<close>

text \<open>
  C7. For an index outside \<open>[0, itemCount)\<close>, \<open>getViewSize\<close> returns -1 and
  \<open>resizeView\<close> leaves the engine as it is; for an index outside \<open>[0, itemCount]\<close>,
  \<open>resize\<close> leaves the engine, hence every item size, as it is; with no items the
  aggregate maximum is +infinity and the aggregate minimum is 0.
\<close>

theorem out_of_range_and_empty:
  "(index < 0 \<or> int (length (views st)) \<le> index \<longrightarrow>
      getViewSize st index = Fin (- 1) \<and> resizeView st index sz = Inr st)
   \<and> (index < 0 \<or> int (length (views st)) < index \<longrightarrow>
      resize st index delta sizes low high = Inr st)
   \<and> (views st = [] \<longrightarrow> maximumSize_sv st = PInf \<and> minimumSize_sv st = Fin 0)"
  by (auto simp: getViewSize_def resizeView_def resize_def maximumSize_sv_def minimumSize_sv_def zero_jsnum_def)

theorem out_of_range_and_empty_witness:
  "getViewSize scenarioB 2 = Fin (- 1) \<and> resizeView scenarioB 2 (Fin 10) = Inr scenarioB
   \<and> resize scenarioB 3 (Fin 10) None None None = Inr scenarioB
   \<and> maximumSize_sv newSplitView = PInf \<and> minimumSize_sv newSplitView = Fin 0"
proof -
  have a: "int (length (views scenarioB)) \<le> 2" "int (length (views scenarioB)) < 3"
    by (simp_all add: scenarioB_def engineOf_def)
  have b: "views newSplitView = []" by (simp add: newSplitView_def)
  show ?thesis
    using out_of_range_and_empty [of 2 scenarioB "Fin 10"] out_of_range_and_empty [of 3 scenarioB _ "Fin 10" None None None]
      out_of_range_and_empty [of _ newSplitView] a b
    by simp
qed

section \<open>Saving proportions\<close>

text \<open>
  C8. When the recorded content size is greater than 0, \<open>saveProportions\<close> sets the
  proportion of every item to its size over the content size (and changes nothing else);
  when the content size is unset, NaN or at most 0, the engine, hence its proportions,
  is left unchanged.
\<close>

theorem saveProportions_spec:
  "(contentSize st = Some c \<and> jsgt c 0 \<longrightarrow>
      saveProportions st = st\<lparr>proportions := Some (map (\<lambda>item. jsdiv (size_item item) c) (views st))\<rparr>
      \<and> (\<forall>ps. proportions (saveProportions st) = Some ps \<longrightarrow> length ps = length (views st)
            \<and> (\<forall>i < length (views st). ps ! i = jsdiv (size_item (views st ! i)) c)))
   \<and> (contentSize st = None \<or> contentSize st = Some NaN \<or> (\<exists>c. contentSize st = Some c \<and> jsle c 0) \<longrightarrow>
      saveProportions st = st)"
  by (cases c) (auto simp: saveProportions_def toNumber_def jsgt_def jsle_def jsge_def zero_jsnum_def)

theorem saveProportions_spec_witness:
  "saveProportions ((withSizes scenarioB [Fin 130, Fin 70])\<lparr>contentSize := Some (Fin 200)\<rparr>)
     = (withSizes scenarioB [Fin 130, Fin 70])
         \<lparr>contentSize := Some (Fin 200), proportions := Some [Fin (13 / 20), Fin (7 / 20)]\<rparr>
   \<and> saveProportions (scenarioB\<lparr>proportions := Some [Fin (1 / 2), Fin (1 / 2)]\<rparr>)
     = scenarioB\<lparr>proportions := Some [Fin (1 / 2), Fin (1 / 2)]\<rparr>"
proof -
  let ?st = "(withSizes scenarioB [Fin 130, Fin 70])\<lparr>contentSize := Some (Fin 200)\<rparr>"
  let ?st2 = "scenarioB\<lparr>proportions := Some [Fin (1 / 2), Fin (1 / 2)]\<rparr>"
  have a: "contentSize ?st = Some (Fin 200) \<and> jsgt (Fin 200) 0"
    by (simp add: jsgt_def zero_jsnum_def)
  have b: "contentSize ?st2 = None" by (simp add: scenarioB_def engineOf_def)
  have c: "map (\<lambda>item. jsdiv (size_item item) (Fin 200)) (views ?st) = [Fin (13 / 20), Fin (7 / 20)]"
    by (simp add: withSizes_def scenarioB_def engineOf_def)
  show ?thesis
    using saveProportions_spec [of ?st "Fin 200"] saveProportions_spec [of ?st2] a b c
    by simp
qed

section \<open>Sashes in lockstep with items\<close>

text \<open>
  C9. From a state whose sash count is \<open>max(itemCount - 1, 0)\<close>, every \<open>addView\<close>
  (given a size argument, at any index) and every \<open>removeView\<close> with an index in
  \<open>[0, itemCount)\<close> returns normally in a state whose sash count is again
  \<open>max(itemCount - 1, 0)\<close>: \<open>addView\<close> adds one item, and one sash when the item
  count becomes greater than 1; \<open>removeView\<close> removes one item, and one sash when at
  least one item remains.
\<close>

theorem sash_count_lockstep:
  assumes "sashCountOk st"
  shows "(\<exists>st'. addView st v (Some sz) indexOpt skipLayout = Inr st'
            \<and> length (views st') = length (views st) + 1
            \<and> length (sashes st') = length (sashes st) + (if 1 < length (views st) + 1 then 1 else 0)
            \<and> sashCountOk st')
       \<and> (0 \<le> index \<and> index < int (length (views st)) \<longrightarrow>
            (\<exists>st' v'. removeView st index sizingOpt = Inr (st', v')
              \<and> length (views st') = length (views st) - 1
              \<and> length (sashes st') = length (sashes st) - (if 1 \<le> length (views st) - 1 then 1 else 0)
              \<and> sashCountOk st'))"
proof (intro conjI impI)
  from addView_ok [OF assms, of v sz indexOpt skipLayout] obtain st' where
    a: "addView st v (Some sz) indexOpt skipLayout = Inr st'"
       "length (views st') = length (views st) + 1"
       "length (sashes st') = length (sashes st) + (if length (views st) + 1 > 1 then 1 else 0)"
    by blast
  then have "sashCountOk st'" using assms by (auto simp: sashCountOk_iff)
  with a show "\<exists>st'. addView st v (Some sz) indexOpt skipLayout = Inr st'
            \<and> length (views st') = length (views st) + 1
            \<and> length (sashes st') = length (sashes st) + (if 1 < length (views st) + 1 then 1 else 0)
            \<and> sashCountOk st'" by auto
next
  assume i: "0 \<le> index \<and> index < int (length (views st))"
  then have "spliceStart (length (views st)) index < length (views st)"
    by (auto simp: spliceStart_def)
  from removeView_ok [OF assms this, of sizingOpt] obtain st' where
    r: "removeView st index sizingOpt = Inr (st', view (views st ! spliceStart (length (views st)) index))"
       "length (views st') = length (views st) - 1"
       "length (sashes st') = length (sashes st) - (if length (views st) - 1 \<ge> 1 then 1 else 0)"
    by blast
  then have "sashCountOk st'" using assms by (auto simp: sashCountOk_iff)
  with r show "\<exists>st' v'. removeView st index sizingOpt = Inr (st', v')
              \<and> length (views st') = length (views st) - 1
              \<and> length (sashes st') = length (sashes st) - (if 1 \<le> length (views st) - 1 then 1 else 0)
              \<and> sashCountOk st'" by auto
qed

theorem sash_count_lockstep_witness:
  "sashCountOk scenarioB
   \<and> (\<exists>st'. addView scenarioB (plainView 10 PInf) (Some (Number (Fin 40))) None False = Inr st'
            \<and> length (views st') = 3 \<and> length (sashes st') = 2 \<and> sashCountOk st')
   \<and> (\<exists>st' v'. removeView scenarioB 1 None = Inr (st', v')
            \<and> length (views st') = 1 \<and> length (sashes st') = 0 \<and> sashCountOk st')"
proof -
  have a: "sashCountOk scenarioB" by (simp add: sashCountOk_def scenarioB_def engineOf_def)
  have b: "length (views scenarioB) = 2" "length (sashes scenarioB) = 1"
    by (simp_all add: scenarioB_def engineOf_def)
  show ?thesis
    using sash_count_lockstep [OF a, of "plainView 10 PInf" "Number (Fin 40)" None False 1 None] a b
    by (auto simp: eval_nat_numeral)
qed

section \<open>removeView and indexes out of range\<close>

text \<open>
  A negative index is not rejected by \<open>removeView\<close>: the splice counts it from the end,
  so \<open>removeView(-1)\<close> on two items removes the last item and the sash, and returns.
  With index 2 the call throws with the engine untouched: no sash has been removed.
\<close>

theorem removeView_negative_index_counterexample:
  "removeView scenarioB (- 1) None =
     Inr (\<lparr>views = [\<lparr>view = plainView 50 PInf, size_item = Fin 200\<rparr>], sashes = [],
           size_sv = Some (Fin 200), orthogonalSize = None, contentSize = Some (Fin 200),
           proportions = Some [Fin 1]\<rparr>, plainView 50 PInf)
   \<and> removeView scenarioB 2 None = Inl (TypeError, scenarioB)"
  by code_simp

text \<open>
  C10, amended. \<open>removeView\<close> performs no bounds check. For an index at or beyond the
  item count, or with no items, the splice yields no item and disposing of it throws,
  before any sash is removed: the engine is unchanged. For a negative index with at least
  one item, the splice counts from the end (not below 0): under the sash-count invariant
  the call returns the item at \<open>max(itemCount + index, 0)\<close>, having removed it and, when
  an item remains, one sash. Under that invariant the call throws exactly when the index
  is at or beyond the item count or there are no items.
\<close>

theorem removeView_unchecked_index:
  "(int (length (views st)) \<le> index \<or> views st = [] \<longrightarrow>
      removeView st index sizingOpt = Inl (TypeError, st))
   \<and> (index < 0 \<and> views st \<noteq> [] \<and> sashCountOk st \<longrightarrow>
        (\<exists>st'. removeView st index sizingOpt
                 = Inr (st', view (views st ! nat (max (int (length (views st)) + index) 0)))
           \<and> length (views st') = length (views st) - 1
           \<and> length (sashes st') = length (sashes st) - (if 1 \<le> length (views st) - 1 then 1 else 0)))
   \<and> (sashCountOk st \<longrightarrow>
        ((\<exists>e. removeView st index sizingOpt = Inl e) \<longleftrightarrow> int (length (views st)) \<le> index \<or> views st = []))"
proof (intro conjI impI)
  assume "int (length (views st)) \<le> index \<or> views st = []"
  then have "length (views st) \<le> spliceStart (length (views st)) index"
    by (auto simp: spliceStart_def)
  then show "removeView st index sizingOpt = Inl (TypeError, st)" by (rule removeView_missing)
next
  assume a: "index < 0 \<and> views st \<noteq> [] \<and> sashCountOk st"
  then have k: "spliceStart (length (views st)) index = nat (max (int (length (views st)) + index) 0)"
    by (simp add: spliceStart_def)
  have "spliceStart (length (views st)) index < length (views st)"
    using a unfolding k by (cases "views st") auto
  from removeView_ok [OF _ this, of sizingOpt] a k
  show "\<exists>st'. removeView st index sizingOpt
                 = Inr (st', view (views st ! nat (max (int (length (views st)) + index) 0)))
           \<and> length (views st') = length (views st) - 1
           \<and> length (sashes st') = length (sashes st) - (if 1 \<le> length (views st) - 1 then 1 else 0)"
    by auto
next
  assume inv: "sashCountOk st"
  show "(\<exists>e. removeView st index sizingOpt = Inl e) \<longleftrightarrow> int (length (views st)) \<le> index \<or> views st = []"
  proof (cases "spliceStart (length (views st)) index < length (views st)")
    case True
    from removeView_ok [OF inv this, of sizingOpt] have "\<not> (\<exists>e. removeView st index sizingOpt = Inl e)"
      by auto
    moreover have "\<not> (int (length (views st)) \<le> index \<or> views st = [])"
      using True by (auto simp: spliceStart_def split: if_splits)
    ultimately show ?thesis by simp
  next
    case False
    then have "removeView st index sizingOpt = Inl (TypeError, st)"
      by (simp add: removeView_missing)
    moreover have "int (length (views st)) \<le> index \<or> views st = []"
      using False by (cases "views st") (auto simp: spliceStart_def split: if_splits)
    ultimately show ?thesis by simp
  qed
qed

theorem removeView_unchecked_index_witness:
  "removeView scenarioB 2 None = Inl (TypeError, scenarioB)
   \<and> (\<exists>st'. removeView scenarioB (- 1) None = Inr (st', view (views scenarioB ! 1))
          \<and> length (views st') = 1 \<and> length (sashes st') = 0)
   \<and> (\<exists>e. removeView scenarioB 5 None = Inl e)"
proof -
  have a: "sashCountOk scenarioB" by (simp add: sashCountOk_def scenarioB_def engineOf_def)
  have b: "length (views scenarioB) = 2" "length (sashes scenarioB) = 1" "views scenarioB \<noteq> []"
    by (simp_all add: scenarioB_def engineOf_def)
  show ?thesis
    using removeView_unchecked_index [of scenarioB 2 None]
      removeView_unchecked_index [of scenarioB "- 1" None]
      removeView_unchecked_index [of scenarioB 5 None] a b
    by simp
qed

section \<open>Priority indexes\<close>



section \<open>The delta range of resize\<close>

text \<open>
  The delta applied is not always the clamped delta. A single item with minimum 50 and
  snap size 20, of size 100: \<open>resize(0, -95)\<close> clamps the delta into the range from
  -100 on, so to -95, but the item collapses to 0 and the delta applied is -100. Without
  snap sizes: two items of sizes 100 and 10 with bounds \<open>[0, 90]\<close> and \<open>[50, 60]\<close>,
  the first above its maximum, and \<open>resize(1, 40)\<close>: the clamped delta is 40, the
  delta applied is 30.
\<close>

theorem resize_applied_delta_counterexample:
  "specDelta (views snapOne) (baselineSizes snapOne None) 0 (Fin (- 95)) = Fin (- 95)
   \<and> appliedDelta snapOne 0 (Fin (- 95)) None None None = Fin (- 100)
   \<and> resize snapOne 0 (Fin (- 95)) None None None = Inr (withSizes snapOne [Fin 0])
   \<and> specDelta (views overfull) (baselineSizes overfull None) 1 (Fin 40) = Fin 40
   \<and> appliedDelta overfull 1 (Fin 40) None None None = Fin 30
   \<and> resize overfull 1 (Fin 40) None None None = Inr (withSizes overfull [Fin 90, Fin 50])"
  by code_simp

text \<open>
  C1, amended. For \<open>0 \<le> index < itemCount\<close>, any priority indexes, and whole numbers
  within the budget as minimums, finite maximums and baseline sizes: the four bounds that
  \<open>resize\<close> folds over its index lists are the sums the specification names, with
  effective minimum 0 for an item that declares a snap size, and the delta that
  \<open>resize\<close> hands to its two passes is the requested delta clamped into
  \<open>[max(minDeltaUp, minDeltaDown), min(maxDeltaDown, maxDeltaUp)]\<close>. When, moreover,
  there is one baseline size per item, every item is within its bounds at its baseline
  size and declares no snap size, and the requested delta is a whole number within the
  budget, then the call returns normally and the delta actually applied is the clamped
  delta \<open>d\<close>: the sizes of the items \<open>0..index\<close> sum to their baseline sum plus
  \<open>d\<close>, those of the items after \<open>index\<close>, if there are any, to their baseline sum
  minus \<open>d\<close>, and every item is within its bounds again.
\<close>

theorem resize_clamps_delta:
  assumes "0 \<le> index" "index < int (length (views st))"
    and "wholeBudget (length (views st)) m"
    and "\<forall>item \<in> set (views st). wholeView m (view item)"
    and "list_all (wholeUpTo m) (baselineSizes st sizesArg)"
  shows "minDeltaUp (views st) (baselineSizes st sizesArg) (upIndexes index low high)
           = specMinDeltaUp (views st) (baselineSizes st sizesArg) index
       \<and> maxDeltaUp (views st) (baselineSizes st sizesArg) (upIndexes index low high)
           = specMaxDeltaUp (views st) (baselineSizes st sizesArg) index
       \<and> minDeltaDown (views st) (baselineSizes st sizesArg) (downIndexes index (length (views st)) low high)
           = specMinDeltaDown (views st) (baselineSizes st sizesArg) index
       \<and> maxDeltaDown (views st) (baselineSizes st sizesArg) (downIndexes index (length (views st)) low high)
           = specMaxDeltaDown (views st) (baselineSizes st sizesArg) index
       \<and> tentativeDelta (views st) (baselineSizes st sizesArg) (upIndexes index low high)
             (downIndexes index (length (views st)) low high) delta
           = specDelta (views st) (baselineSizes st sizesArg) index delta
       \<and> (length (baselineSizes st sizesArg) = length (views st)
            \<and> list_all inBounds (views (withSizes st (baselineSizes st sizesArg)))
            \<and> wholeUpTo m (Fin \<bar>\<delta>\<bar>) \<longrightarrow>
          (\<exists>st' d. resize st index (Fin \<delta>) sizesArg low high = Inr st'
             \<and> specDelta (views st) (baselineSizes st sizesArg) index (Fin \<delta>) = Fin d
             \<and> appliedDelta st index (Fin \<delta>) sizesArg low high = Fin d
             \<and> sumList (take (nat index + 1) (map size_item (views st')))
                 = sumList (take (nat index + 1) (baselineSizes st sizesArg)) + Fin d
             \<and> (index + 1 < int (length (views st)) \<longrightarrow>
                  sumList (drop (nat index + 1) (map size_item (views st')))
                    = sumList (drop (nat index + 1) (baselineSizes st sizesArg)) - Fin d)
             \<and> list_all inBounds (views st')))"
proof -
  note idx = assms(1,2)
  have conserve: "\<exists>st' d. resize st index (Fin \<delta>) sizesArg low high = Inr st'
             \<and> specDelta (views st) (baselineSizes st sizesArg) index (Fin \<delta>) = Fin d
             \<and> appliedDelta st index (Fin \<delta>) sizesArg low high = Fin d
             \<and> sumList (take (nat index + 1) (map size_item (views st')))
                 = sumList (take (nat index + 1) (baselineSizes st sizesArg)) + Fin d
             \<and> (index + 1 < int (length (views st)) \<longrightarrow>
                  sumList (drop (nat index + 1) (map size_item (views st')))
                    = sumList (drop (nat index + 1) (baselineSizes st sizesArg)) - Fin d)
             \<and> list_all inBounds (views st')"
    if "length (baselineSizes st sizesArg) = length (views st)"
      and "list_all inBounds (views (withSizes st (baselineSizes st sizesArg)))"
    using resize_conserves [OF idx that, of \<delta> low high]
    by (simp only: tentativeDelta_spec [OF idx])
  show ?thesis
    using conserve by (simp only: bounds_spec [OF idx] tentativeDelta_spec [OF idx] simp_thms) blast
qed

text \<open>
  The range with a snap size and priority indexes: for the two items of sizes 100 and
  100 and minimums 50 and 50, the first with a snap size, and \<open>index = 1\<close>, the lower
  bound is \<open>(0 - 100) + (50 - 100)\<close>. And the delta applied within bounds: minimums 50
  and 90 and \<open>resize(0, 30)\<close> from the sizes 100 and 100.
\<close>

theorem resize_clamps_delta_witness:
  "upIndexes 1 (Some [0]) None = [0, 1]
   \<and> minDeltaUp (views snapTwo) [Fin 100, Fin 100] (upIndexes 1 (Some [0]) None) = Fin (- 150)
   \<and> tentativeDelta (views snapTwo) [Fin 100, Fin 100] (upIndexes 1 (Some [0]) None)
         (downIndexes 1 2 (Some [0]) None) (Fin (- 200)) = Fin (- 150)
   \<and> (\<exists>st'. resize scenarioC 0 (Fin 30) (Some [Fin 100, Fin 100]) None None = Inr st'
         \<and> appliedDelta scenarioC 0 (Fin 30) (Some [Fin 100, Fin 100]) None None = Fin 10
         \<and> sumList (take 1 (map size_item (views st'))) = Fin 110
         \<and> sumList (drop 1 (map size_item (views st'))) = Fin 90)"
proof -
  have a: "(0::int) \<le> 1" "1 < int (length (views snapTwo))"
    by (simp_all add: snapTwo_def engineOf_def)
  have w: "wholeBudget (length (views snapTwo)) 100"
    "\<forall>item \<in> set (views snapTwo). wholeView 100 (view item)"
    "list_all (wholeUpTo 100) (baselineSizes snapTwo (Some [Fin 100, Fin 100]))"
    by code_simp+
  have b: "baselineSizes snapTwo (Some [Fin 100, Fin 100]) = [Fin 100, Fin 100]"
          "length (views snapTwo) = 2"
    by (simp_all add: baselineSizes_def snapTwo_def engineOf_def)
  have c: "upIndexes 1 (Some [0]) None = [0, 1]"
    "specMinDeltaUp (views snapTwo) [Fin 100, Fin 100] 1 = Fin (- 150)"
    "specDelta (views snapTwo) [Fin 100, Fin 100] 1 (Fin (- 200)) = Fin (- 150)"
    by code_simp+
  have first: "minDeltaUp (views snapTwo) [Fin 100, Fin 100] (upIndexes 1 (Some [0]) None) = Fin (- 150)
     \<and> tentativeDelta (views snapTwo) [Fin 100, Fin 100] (upIndexes 1 (Some [0]) None)
         (downIndexes 1 2 (Some [0]) None) (Fin (- 200)) = Fin (- 150)"
    using resize_clamps_delta [OF a w, of "Some [0]" None "Fin (- 200)"]
    unfolding b c by simp
  have a2: "(0::int) \<le> 0" "0 < int (length (views scenarioC))"
    by (simp_all add: scenarioC_def engineOf_def)
  have w2: "wholeBudget (length (views scenarioC)) 100"
    "\<forall>item \<in> set (views scenarioC). wholeView 100 (view item)"
    "list_all (wholeUpTo 100) (baselineSizes scenarioC (Some [Fin 100, Fin 100]))"
    by code_simp+
  have b2: "baselineSizes scenarioC (Some [Fin 100, Fin 100]) = [Fin 100, Fin 100]"
          "length (views scenarioC) = 2"
    by (simp_all add: baselineSizes_def scenarioC_def engineOf_def)
  have h2: "length [Fin 100, Fin 100] = (2::nat)"
    "list_all inBounds (views (withSizes scenarioC [Fin 100, Fin 100]))"
    "wholeUpTo 100 (Fin \<bar>30\<bar>)"
    by code_simp+
  have c2: "specDelta (views scenarioC) [Fin 100, Fin 100] 0 (Fin 30) = Fin 10"
    by code_simp
  have ar: "Fin 100 + Fin 10 = Fin 110" "Fin 100 - Fin 10 = Fin 90"
    by (simp_all add: jsnum_defs)
  have second: "\<exists>st'. resize scenarioC 0 (Fin 30) (Some [Fin 100, Fin 100]) None None = Inr st'
         \<and> appliedDelta scenarioC 0 (Fin 30) (Some [Fin 100, Fin 100]) None None = Fin 10
         \<and> sumList (take 1 (map size_item (views st'))) = Fin 110
         \<and> sumList (drop 1 (map size_item (views st'))) = Fin 90"
    using resize_clamps_delta [OF a2 w2, of None None _ 30] h2
    unfolding b2 c2 by (auto simp: ar)
  from c(1) first second show ?thesis by simp
qed

section \<open>layout and the container size\<close>

text \<open>
  One item with minimum 0 and maximum 100 and proportion 1: after \<open>layout(200, 50)\<close> its
  size is 100, not 200, although 200 is not below the sum of the minimums.
\<close>

theorem layout_overflow_counterexample:
  "layout oneBounded (Fin 200) (Fin 50)
     = Inr (oneBounded\<lparr>size_sv := Some (Fin 200), orthogonalSize := Some (Fin 50),
                       contentSize := Some (Fin 100)\<rparr>)
   \<and> sumSizes (views oneBounded) = Fin 100
   \<and> minimumSize_sv oneBounded = Fin 0"
  by code_simp

text \<open>
  C2, amended. For a non-empty sequence of items with finite minimum and maximum
  (minimum at most maximum) and no snap size, a finite proportion saved for each item and
  the sash count in place, with whole numbers within the budget as minimums, maximums
  and total: \<open>layout(total, orthogonal)\<close> with a total that lies between the sum of the
  minimums and the sum of the maximums returns normally, and the sizes then sum to the
  total exactly.
\<close>

theorem layout_fills_container:
  assumes "views st \<noteq> []"
    and "\<forall>item \<in> set (views st). boundedView (view item)"
    and "proportions st = Some ps" "length (views st) \<le> length ps" "list_all isFin ps"
    and "sashCountOk st"
    and "jsle (minimumSize_sv st) (Fin t)" and "jsle (Fin t) (maximumSize_sv st)"
    and "wholeBudget (length (views st)) m"
    and "\<forall>item \<in> set (views st). wholeView m (view item)"
    and "wholeUpTo m (Fin t)"
  shows "\<exists>st'. layout st (Fin t) orthogonal = Inr st' \<and> sumSizes (views st') = Fin t"
  using layout_sum_aux [OF assms(1-8)] by blast

text \<open>
  Two items with bounds \<open>[50, 150]\<close> and proportions 1/4 and 3/4, laid out at 250: the
  proportional sizes are 63 and 188, the clamp takes the second to 150, and the empty
  space of 37 goes to the first item.
\<close>

theorem layout_fills_container_witness:
  "\<exists>st'. layout twoBounded (Fin 250) (Fin 50) = Inr st' \<and> sumSizes (views st') = Fin 250
         \<and> map size_item (views st') = [Fin 100, Fin 150]"
proof -
  have h1: "views twoBounded \<noteq> []" by (simp add: twoBounded_def engineOf_def)
  have h2: "\<forall>item \<in> set (views twoBounded). boundedView (view item)"
    by (simp add: twoBounded_def engineOf_def boundedView_def plainView_def)
  have h3: "proportions twoBounded = Some [Fin (1 / 4), Fin (3 / 4)]"
    "length (views twoBounded) \<le> length [Fin (1 / 4), Fin (3 / 4)]"
    "list_all isFin [Fin (1 / 4), Fin (3 / 4)]"
    by (simp_all add: twoBounded_def engineOf_def isFin_def)
  have h4: "sashCountOk twoBounded" by (simp add: twoBounded_def engineOf_def sashCountOk_def)
  have h5: "jsle (minimumSize_sv twoBounded) (Fin 250)" "jsle (Fin 250) (maximumSize_sv twoBounded)"
    by code_simp+
  have h6: "wholeBudget (length (views twoBounded)) 250"
    "\<forall>item \<in> set (views twoBounded). wholeView 250 (view item)"
    "wholeUpTo 250 (Fin 250)"
    by code_simp+
  from layout_fills_container [OF h1 h2 h3 h4 h5 h6, of "Fin 50"] obtain st' where
    l: "layout twoBounded (Fin 250) (Fin 50) = Inr st'" "sumSizes (views st') = Fin 250" by blast
  have "case layout twoBounded (Fin 250) (Fin 50) of
          Inl _ \<Rightarrow> False | Inr s \<Rightarrow> map size_item (views s) = [Fin 100, Fin 150]"
    by code_simp
  then have "map size_item (views st') = [Fin 100, Fin 150]" by (simp add: l(1))
  with l show ?thesis by (intro exI [of _ st']) simp
qed

text \<open>
  Why the items must not declare a snap size: an item that snaps goes from 0 straight to
  its minimum. Here the minimums sum to 100 and the maximums to 200, yet at 120 the sizes
  end as 50 and 100.
\<close>

lemma layout_snap_example:
  "(case layout snapLayout (Fin 120) (Fin 50) of
      Inl _ \<Rightarrow> False
    | Inr st' \<Rightarrow> map size_item (views st') = [Fin 50, Fin 100])
   \<and> minimumSize_sv snapLayout = Fin 100 \<and> maximumSize_sv snapLayout = Fin 200"
  by code_simp

section \<open>Moving a sash back and forth\<close>

text \<open>
  C5. Let every item fit its bounds (or be a collapsed item that declares a snap size),
  and let the items still do so after item \<open>index\<close> has grown by \<open>d\<close> and the next
  item (if any) has shrunk by \<open>d\<close>: then no clamp binds. With whole numbers within the budget as minimums, finite maximums,
  sizes and delta, \<open>resize(index, d)\<close> makes exactly this move, and
  \<open>resize(index, -d)\<close> after it gives back the engine state, hence every item's size,
  of before the first call.
\<close>

theorem resize_round_trip:
  assumes "0 \<le> index" "index < int (length (views st))"
    and "list_all fitsBounds (views st)"
    and "list_all fitsBounds (shiftSizes (views st) (nat index) d)"
    and "wholeBudget (length (views st)) m"
    and "list_all (wholeItem m) (views st)"
    and "wholeUpTo m (Fin \<bar>d\<bar>)"
  shows "resize st index (Fin d) None None None
           = Inr (st\<lparr>views := shiftSizes (views st) (nat index) d\<rparr>)
       \<and> resize (st\<lparr>views := shiftSizes (views st) (nat index) d\<rparr>) index (- Fin d) None None None
           = Inr st"
proof
  show "resize st index (Fin d) None None None
           = Inr (st\<lparr>views := shiftSizes (views st) (nat index) d\<rparr>)"
    by (rule resize_slack [OF assms(1-4)])
next
  let ?st1 = "st\<lparr>views := shiftSizes (views st) (nat index) d\<rparr>"
  have k: "nat index < length (views st)" using assms(1,2) by simp
  have inv: "shiftSizes (views ?st1) (nat index) (- d) = views st"
    using shiftSizes_inverse [OF k assms(3)] by simp
  have a: "index < int (length (views ?st1))" using assms(2) by simp
  have b: "list_all fitsBounds (views ?st1)" using assms(4) by simp
  have c: "list_all fitsBounds (shiftSizes (views ?st1) (nat index) (- d))"
    unfolding inv by (rule assms(3))
  have "resize ?st1 index (Fin (- d)) None None None = Inr (?st1\<lparr>views := views st\<rparr>)"
    using resize_slack [OF assms(1) a b c] unfolding inv .
  then show "resize ?st1 index (- Fin d) None None None = Inr st"
    by (simp add: jsnum_defs)
qed

text \<open>
  Two items of sizes 100 and 100 with minimums 50 and a delta of 30; and a collapsed item
  with minimum 50 and snap size 20 next to an item of size 200, with a delta of 60.
\<close>

theorem resize_round_trip_witness:
  "resize scenarioB 0 (Fin 30) None None None = Inr (withSizes scenarioB [Fin 130, Fin 70])
   \<and> resize (withSizes scenarioB [Fin 130, Fin 70]) 0 (- Fin 30) None None None = Inr scenarioB
   \<and> resize collapsedPair 0 (Fin 60) None None None = Inr (withSizes collapsedPair [Fin 60, Fin 140])
   \<and> resize (withSizes collapsedPair [Fin 60, Fin 140]) 0 (- Fin 60) None None None = Inr collapsedPair"
proof -
  have a: "(0::int) \<le> 0" "0 < int (length (views scenarioB))"
    by (simp_all add: scenarioB_def engineOf_def)
  have b: "list_all fitsBounds (views scenarioB)"
    by (simp add: scenarioB_def engineOf_def fitsBounds_def plainView_def jsnum_defs)
  have s: "shiftSizes (views scenarioB) (nat 0) 30 = views (withSizes scenarioB [Fin 130, Fin 70])"
    by (simp add: shiftSizes_def scenarioB_def engineOf_def withSizes_def jsnum_defs)
  have c: "list_all fitsBounds (shiftSizes (views scenarioB) (nat 0) 30)"
    unfolding s by (simp add: scenarioB_def engineOf_def withSizes_def fitsBounds_def plainView_def jsnum_defs)
  have e: "scenarioB\<lparr>views := views (withSizes scenarioB [Fin 130, Fin 70])\<rparr> = withSizes scenarioB [Fin 130, Fin 70]"
    by (simp add: withSizes_def)
  have w: "wholeBudget (length (views scenarioB)) 100"
    "list_all (wholeItem 100) (views scenarioB)"
    "wholeUpTo 100 (Fin \<bar>30\<bar>)"
    by code_simp+
  have a': "0 < int (length (views collapsedPair))"
    by (simp add: collapsedPair_def engineOf_def)
  have b': "list_all fitsBounds (views collapsedPair)"
    by code_simp
  have s': "shiftSizes (views collapsedPair) (nat 0) 60 = views (withSizes collapsedPair [Fin 60, Fin 140])"
    by (simp add: shiftSizes_def collapsedPair_def engineOf_def withSizes_def jsnum_defs)
  have c': "list_all fitsBounds (shiftSizes (views collapsedPair) (nat 0) 60)"
    unfolding s' by code_simp
  have e': "collapsedPair\<lparr>views := views (withSizes collapsedPair [Fin 60, Fin 140])\<rparr>
              = withSizes collapsedPair [Fin 60, Fin 140]"
    by (simp add: withSizes_def)
  have w': "wholeBudget (length (views collapsedPair)) 200"
    "list_all (wholeItem 200) (views collapsedPair)"
    "wholeUpTo 200 (Fin \<bar>60\<bar>)"
    by code_simp+
  show ?thesis
    using resize_round_trip [OF a b c w] resize_round_trip [OF a(1) a' b' c' w']
    unfolding s e s' e' by simp
qed

section \<open>distributeViewSizes twice\<close>

text \<open>
  Two flexible items within their bounds, of sizes 10 and 20 in a container of 100 (as
  after adding them without layout): the first \<open>distributeViewSizes\<close> gives 15 and 85,
  the second 50 and 50.
\<close>

theorem distributeViewSizes_unsettled_counterexample:
  "list_all inBounds (views twoLoose) \<and> list_all isFlexible (views twoLoose)
   \<and> (case distributeViewSizes twoLoose of
         Inl _ \<Rightarrow> False
       | Inr st1 \<Rightarrow>
           map size_item (views st1) = [Fin 15, Fin 85]
           \<and> (case distributeViewSizes st1 of
                 Inl _ \<Rightarrow> False
               | Inr st2 \<Rightarrow> map size_item (views st2) = [Fin 50, Fin 50]))"
  by code_simp

text \<open>
  C6, amended. When every item, flexible or not, is within its bounds and declares no
  snap size, the sizes sum to the container size, the sash count is in place, and the
  minimums, finite maximums, sizes and container size are whole numbers within the
  budget, \<open>distributeViewSizes\<close> returns normally and a second call returns the very
  same state: it changes no item's size.
\<close>

theorem distributeViewSizes_settled_idempotent:
  assumes ib: "list_all inBounds (views st)" and sz: "size_sv st = Some (Fin t)"
    and sum: "sumSizes (views st) = Fin t" and inv: "sashCountOk st"
    and whole: "wholeBudget (length (views st)) m" "list_all (wholeItem m) (views st)"
      "wholeUpTo m (Fin t)"
  shows "\<exists>st'. distributeViewSizes st = Inr st' \<and> distributeViewSizes st' = Inr st'"
proof -
  let ?vs = "views st"
  let ?V = "map (assignFlexible (flexSize ?vs)) ?vs"
  let ?st1 = "st\<lparr>views := ?V\<rparr>"
  let ?u = "distributeEmptySpace ?st1"
  let ?st' = "settled ?u"
  have vV: "map view ?V = map view ?vs" by (simp add: comp_def)
  have ibV: "list_all inBounds (views ?st1)" using assign_inBounds [OF ib] by simp
  have sz1: "size_sv ?st1 = Some (Fin t)" using sz by simp
  note bv = bounds_of_views [OF vV]
  have lo: "jsle (sumList (map (\<lambda>item. minimumSize (view item)) (views ?st1))) (Fin t)"
    and hi: "jsle (Fin t) (sumList (map (\<lambda>item. maximumSize (view item)) (views ?st1)))"
    using feasible_total [OF ib sum] bv by (simp_all add: comp_def)
  have inv1: "sashCountOk ?st1" using inv by (simp add: sashCountOk_def)
  have first: "distributeViewSizes st = Inr ?st'"
    unfolding distributeViewSizes_conv by (rule relayout_inBounds [OF ibV sz1 lo hi inv1])
  from distributeEmptySpace_sum [OF ibV sz1 lo hi] have u:
    "sumSizes (views ?u) = Fin t" "list_all inBounds (views ?u)" "map view (views ?u) = map view ?vs"
    using vV by simp_all
  \<comment> \<open>the second call starts from the same assignment\<close>
  have same: "map (assignFlexible (flexSize (views ?st'))) (views ?st') = ?V"
    using same_assignment [OF u(3) u(2) ib] u(1) sum by simp
  have sz': "size_sv ?st' = Some (Fin t)" by (simp add: distributeEmptySpace_def Let_def sz)
  let ?st2 = "?st'\<lparr>views := ?V\<rparr>"
  have ib2: "list_all inBounds (views ?st2)" using ibV by simp
  have sz2: "size_sv ?st2 = Some (Fin t)" using sz' by simp
  have lo2: "jsle (sumList (map (\<lambda>item. minimumSize (view item)) (views ?st2))) (Fin t)"
    and hi2: "jsle (Fin t) (sumList (map (\<lambda>item. maximumSize (view item)) (views ?st2)))"
    using lo hi by simp_all
  have s1: "shapeOf ?st1 = shapeOf st" by (simp add: shapeOf_def)
  have su: "shapeOf ?u = shapeOf st" using s1 by simp
  then have "length (views ?u) - 1 \<le> length (sashes ?u)"
    using inv by (simp add: shapeOf_def sashCountOk_iff)
  then have "shapeOf ?st' = shapeOf st" using su by (simp only: settled_shape)
  then have "shapeOf ?st2 = shapeOf st" using s1 by (simp add: shapeOf_def)
  then have inv2: "sashCountOk ?st2" using inv by (simp add: sashCountOk_def shapeOf_def)
  have "distributeEmptySpace ?st2 = ?st'\<lparr>views := views ?u\<rparr>"
    by (simp add: distributeEmptySpace_def Let_def sz sz')
  also have "\<dots> = ?st'" by simp
  finally have again: "distributeEmptySpace ?st2 = ?st'" .
  have "distributeViewSizes ?st' = relayout ?st2 None None"
    unfolding distributeViewSizes_conv same ..
  also have "\<dots> = Inr (settled (distributeEmptySpace ?st2))"
    by (rule relayout_inBounds [OF ib2 sz2 lo2 hi2 inv2])
  also have "\<dots> = Inr ?st'" unfolding again by (simp only: settled_idem)
  finally have second: "distributeViewSizes ?st' = Inr ?st'" .
  from first second show ?thesis by blast
qed

text \<open>
  An item with bounds \<open>[0, 60]\<close> and an unbounded one, of sizes 60 and 140 in a
  container of 200: the even share of 100 is capped at 60 for the first item, the last
  item takes the 40 that are left, and the second call finds the same sizes.
\<close>

theorem distributeViewSizes_settled_idempotent_witness:
  "\<exists>st'. distributeViewSizes twoUneven = Inr st' \<and> distributeViewSizes st' = Inr st'
         \<and> map size_item (views st') = [Fin 60, Fin 140]"
proof -
  have a: "list_all inBounds (views twoUneven)"
    by (simp add: twoUneven_def engineOf_def inBounds_def plainView_def jsnum_defs)
  have b: "size_sv twoUneven = Some (Fin 200)" by (simp add: twoUneven_def engineOf_def)
  have c: "sumSizes (views twoUneven) = Fin 200"
    by (simp add: twoUneven_def engineOf_def jsnum_defs)
  have d: "sashCountOk twoUneven" by (simp add: twoUneven_def engineOf_def sashCountOk_def)
  have w: "wholeBudget (length (views twoUneven)) 200" "list_all (wholeItem 200) (views twoUneven)"
    "wholeUpTo 200 (Fin 200)"
    by code_simp+
  from distributeViewSizes_settled_idempotent [OF a b c d w] obtain st' where
    i: "distributeViewSizes twoUneven = Inr st'" "distributeViewSizes st' = Inr st'" by blast
  have "case distributeViewSizes twoUneven of
          Inl _ \<Rightarrow> False | Inr s \<Rightarrow> map size_item (views s) = [Fin 60, Fin 140]"
    by code_simp
  then have "map size_item (views st') = [Fin 60, Fin 140]" by (simp add: i(1))
  with i show ?thesis by (intro exI [of _ st']) simp
qed

text \<open>
  Why the items must not declare a snap size: here both items are within their bounds
  and the sizes sum to the container size 15, yet the first call leaves 10 and 0 and the
  second 5 and 10.
\<close>

lemma distributeViewSizes_snap_example:
  "sumSizes (views snapPair) = Fin 15
   \<and> (case distributeViewSizes snapPair of
         Inl _ \<Rightarrow> False
       | Inr st1 \<Rightarrow>
           map size_item (views st1) = [Fin 10, Fin 0]
           \<and> (case distributeViewSizes st1 of
                 Inl _ \<Rightarrow> False
               | Inr st2 \<Rightarrow> map size_item (views st2) = [Fin 5, Fin 10]))"
  by code_simp

end
